theory Spec2Isabelle
  imports Complex_Main
begin

section \<open>The document: a store of nodes\<close>

text \<open>
  The component of \<^verbatim>\<open>src/components/block-reveal-text-wrapper.tsx\<close> works on DOM
  node handles (\<^verbatim>\<open>line\<close>, \<^verbatim>\<open>wrapper\<close>, \<^verbatim>\<open>block\<close>) that it moves around, so the
  document is an explicit store: every node has an identity (a number, handed out in
  creation order), a child list, a description and inline style properties.
  \<^verbatim>\<open>parentNode\<close> is looked up from the child lists. JavaScript numbers are taken as
  reals: the claims are about the formulas, not about rounding.
\<close>

type_synonym node_id = nat

datatype style_value = Num real | Str string

datatype node_info =
    TextNode string
  | Element string "string list" "(string \<times> string) list"
    \<comment> \<open>tag name, class list, attributes\<close>

record dom_store =
  kids :: "node_id \<Rightarrow> node_id list"
  info :: "node_id \<Rightarrow> node_info"
  style :: "node_id \<Rightarrow> string \<Rightarrow> style_value option"
  next_id :: node_id

datatype error = TypeError | NotFoundError

text \<open>\<^verbatim>\<open>document.createElement(tag)\<close>: a new element with no parent and no children.\<close>

definition createElement :: "dom_store \<Rightarrow> string \<Rightarrow> node_id \<times> dom_store" where
  "createElement d tag =
     (next_id d,
      d\<lparr>kids := (kids d)(next_id d := []),
        info := (info d)(next_id d := Element tag [] []),
        style := (style d)(next_id d := Map.empty),
        next_id := Suc (next_id d)\<rparr>)"

definition createTextNode :: "dom_store \<Rightarrow> string \<Rightarrow> node_id \<times> dom_store" where
  "createTextNode d txt =
     (next_id d,
      d\<lparr>kids := (kids d)(next_id d := []),
        info := (info d)(next_id d := TextNode txt),
        style := (style d)(next_id d := Map.empty),
        next_id := Suc (next_id d)\<rparr>)"

text \<open>\<^verbatim>\<open>el.className = c\<close>, with the class list that the string \<^verbatim>\<open>c\<close> denotes.\<close>

definition set_className :: "dom_store \<Rightarrow> node_id \<Rightarrow> string list \<Rightarrow> dom_store" where
  "set_className d n cls =
     d\<lparr>info := (info d)(n := (case info d n of
                                Element tg _ ats \<Rightarrow> Element tg cls ats
                              | TextNode t \<Rightarrow> TextNode t))\<rparr>"

text \<open>\<^verbatim>\<open>el.style.prop = v\<close>.\<close>

definition set_style :: "dom_store \<Rightarrow> node_id \<Rightarrow> string \<Rightarrow> style_value \<Rightarrow> dom_store" where
  "set_style d n prop v = d\<lparr>style := (style d)(n := (style d n)(prop \<mapsto> v))\<rparr>"

definition is_element :: "dom_store \<Rightarrow> node_id \<Rightarrow> bool" where
  "is_element d n = (case info d n of Element _ _ _ \<Rightarrow> True | TextNode _ \<Rightarrow> False)"

definition has_class :: "dom_store \<Rightarrow> node_id \<Rightarrow> string \<Rightarrow> bool" where
  "has_class d n c = (case info d n of Element _ cls _ \<Rightarrow> c \<in> set cls | TextNode _ \<Rightarrow> False)"

definition hasAttribute :: "dom_store \<Rightarrow> node_id \<Rightarrow> string \<Rightarrow> bool" where
  "hasAttribute d n a =
     (case info d n of Element _ _ ats \<Rightarrow> map_of ats a \<noteq> None | TextNode _ \<Rightarrow> False)"

definition setAttribute :: "dom_store \<Rightarrow> node_id \<Rightarrow> string \<Rightarrow> string \<Rightarrow> dom_store" where
  "setAttribute d n a v =
     d\<lparr>info := (info d)(n := (case info d n of
                                Element tg cls ats \<Rightarrow> Element tg cls ((a, v) # filter (\<lambda>kv. fst kv \<noteq> a) ats)
                              | TextNode t \<Rightarrow> TextNode t))\<rparr>"

text \<open>\<^verbatim>\<open>n.parentNode\<close> (\<open>None\<close> is \<^verbatim>\<open>null\<close>) and \<^verbatim>\<open>n.firstChild\<close>.\<close>

definition parentNode :: "dom_store \<Rightarrow> node_id \<Rightarrow> node_id option" where
  "parentNode d n = find (\<lambda>p. n \<in> set (kids d p)) [0..<next_id d]"

definition firstChild :: "dom_store \<Rightarrow> node_id \<Rightarrow> node_id option" where
  "firstChild d n = (case kids d n of [] \<Rightarrow> None | c # _ \<Rightarrow> Some c)"

text \<open>\<^verbatim>\<open>el.children\<close>: the child elements, text nodes left out.\<close>

definition children :: "dom_store \<Rightarrow> node_id \<Rightarrow> node_id list" where
  "children d n = filter (is_element d) (kids d n)"

text \<open>Taking a node out of its parent's child list: \<^verbatim>\<open>n.remove()\<close>, and the first
  step of every insertion of a node that is already in the tree.\<close>

definition node_remove :: "dom_store \<Rightarrow> node_id \<Rightarrow> dom_store" where
  "node_remove d n =
     (case parentNode d n of
        None \<Rightarrow> d
      | Some q \<Rightarrow> d\<lparr>kids := (kids d)(q := remove1 n (kids d q))\<rparr>)"

fun ins_before :: "node_id \<Rightarrow> node_id \<Rightarrow> node_id list \<Rightarrow> node_id list" where
  "ins_before n r [] = []"
| "ins_before n r (x # xs) = (if x = r then n # x # xs else x # ins_before n r xs)"

text \<open>\<^verbatim>\<open>p.insertBefore(n, r)\<close>: the DOM raises \<^verbatim>\<open>NotFoundError\<close> when \<^verbatim>\<open>r\<close> is not a
  child of \<^verbatim>\<open>p\<close>; otherwise \<^verbatim>\<open>n\<close> leaves its old parent and lands before \<^verbatim>\<open>r\<close>.
  \<^verbatim>\<open>p.appendChild(n)\<close> puts it last.\<close>

definition insertBefore ::
  "dom_store \<Rightarrow> node_id \<Rightarrow> node_id \<Rightarrow> node_id \<Rightarrow> error + dom_store" where
  "insertBefore d p n r =
     (if r \<notin> set (kids d p) then Inl NotFoundError
      else let d1 = node_remove d n
           in Inr (d1\<lparr>kids := (kids d1)(p := ins_before n r (kids d1 p))\<rparr>))"

definition appendChild :: "dom_store \<Rightarrow> node_id \<Rightarrow> node_id \<Rightarrow> dom_store" where
  "appendChild d p n =
     (let d1 = node_remove d n in d1\<lparr>kids := (kids d1)(p := kids d1 p @ [n])\<rparr>)"

text \<open>The descendants of a node in document order, to a nesting depth; and
  \<^verbatim>\<open>el.querySelectorAll("." + c)\<close>, the static list of the descendants of class \<^verbatim>\<open>c\<close>.
  A document of \<open>next_id d\<close> nodes nests no deeper than that.\<close>

fun descendants :: "nat \<Rightarrow> dom_store \<Rightarrow> node_id \<Rightarrow> node_id list" where
  "descendants 0 d n = []"
| "descendants (Suc f) d n = concat (map (\<lambda>k. k # descendants f d k) (kids d n))"

definition querySelectorAll :: "dom_store \<Rightarrow> node_id \<Rightarrow> string \<Rightarrow> node_id list" where
  "querySelectorAll d n c = filter (\<lambda>k. has_class d k c) (descendants (next_id d) d n)"

text \<open>The structure of a subtree, node identities forgotten: what "structurally equal"
  compares (text content, tags, classes, attributes, nesting).\<close>

datatype shape =
    ShText string
  | ShElem string "string list" "(string \<times> string) list" "shape list"

fun shape_of :: "nat \<Rightarrow> dom_store \<Rightarrow> node_id \<Rightarrow> shape" where
  "shape_of 0 d n =
     (case info d n of TextNode t \<Rightarrow> ShText t | Element tg cls ats \<Rightarrow> ShElem tg cls ats [])"
| "shape_of (Suc f) d n =
     (case info d n of
        TextNode t \<Rightarrow> ShText t
      | Element tg cls ats \<Rightarrow> ShElem tg cls ats (map (shape_of f d) (kids d n)))"

text \<open>A loop whose body may raise: \<^verbatim>\<open>xs.forEach(f)\<close> stops at the first exception.\<close>

fun forEach :: "('s \<Rightarrow> 'a \<Rightarrow> error + 's) \<Rightarrow> 's \<Rightarrow> 'a list \<Rightarrow> error + 's" where
  "forEach f s [] = Inr s"
| "forEach f s (x # xs) = (case f s x of Inl e \<Rightarrow> Inl e | Inr s' \<Rightarrow> forEach f s' xs)"

section \<open>The external capabilities\<close>

subsection \<open>Text segmentation (SplitText)\<close>

record split_handle =
  split_element :: node_id
  split_original :: "node_id list"
  split_lines :: "node_id list"

fun string_of_nat :: "nat \<Rightarrow> string" where
  "string_of_nat n =
     (if n < 10 then [char_of (48 + n)]
      else string_of_nat (n div 10) @ [char_of (48 + n mod 10)])"

text \<open>One line element: a \<^verbatim>\<open>div\<close> of class \<^verbatim>\<open>block-line<k>\<close> that holds the line's text.\<close>

definition make_line :: "dom_store \<Rightarrow> nat \<Rightarrow> string \<Rightarrow> node_id \<times> dom_store" where
  "make_line d k txt =
     (let (l, d1) = createElement d ''div'';
          d2 = set_className d1 l [''block-line'' @ string_of_nat k];
          (t, d3) = createTextNode d2 txt
      in (l, d3\<lparr>kids := (kids d3)(l := [t])\<rparr>))"

fun make_lines :: "dom_store \<Rightarrow> nat \<Rightarrow> string list \<Rightarrow> node_id list \<times> dom_store" where
  "make_lines d k [] = ([], d)"
| "make_lines d k (txt # txts) =
     (let (l, d1) = make_line d k txt;
          (ls, d2) = make_lines d1 (Suc k) txts
      in (l # ls, d2))"

text \<open>
  Modelled from the spec: the segmentation capability (GSAP's SplitText, which is not
  part of the repository), \<^verbatim>\<open>segment(element, "lines") -> {lines, revert()}\<close>. Where the
  rendered text breaks into lines depends on the layout, so the lines' texts are the
  parameter \<open>seg\<close>. Creation replaces the element's content by one new line element
  per line, in document order, and keeps the original content in the handle;
  \<^verbatim>\<open>revert()\<close> restores the element's original content.
\<close>

definition SplitText_create ::
  "(dom_store \<Rightarrow> node_id \<Rightarrow> string list) \<Rightarrow> dom_store \<Rightarrow> node_id
     \<Rightarrow> split_handle \<times> dom_store" where
  "SplitText_create seg d element =
     (let (ls, d1) = make_lines d 1 (seg d element)
      in (\<lparr>split_element = element, split_original = kids d element, split_lines = ls\<rparr>,
          d1\<lparr>kids := (kids d1)(element := ls)\<rparr>))"

definition revert :: "dom_store \<Rightarrow> split_handle \<Rightarrow> dom_store" where
  "revert d sp = d\<lparr>kids := (kids d)(split_element sp := split_original sp)\<rparr>"

subsection \<open>Timelines and visibility triggers (GSAP, ScrollTrigger)\<close>

type_synonym vars = "(string \<times> style_value) list"

datatype tween =
    TlTo node_id vars real string
    \<comment> \<open>\<^verbatim>\<open>tl.to(target, {...vars, duration, ease})\<close>\<close>
  | TlSet "node_id option" vars
    \<comment> \<open>\<^verbatim>\<open>tl.set(target, vars)\<close>; the target is \<^verbatim>\<open>undefined\<close> when \<open>None\<close>\<close>

record timeline =
  tl_delay :: real
  tl_steps :: "tween list"
  tl_paused :: bool

record scroll_trigger =
  st_trigger :: "node_id option"
  st_start :: string
  st_once :: bool
  st_onEnter :: nat
  st_alive :: bool
  st_fired :: nat

text \<open>The calls into the animation engine, in the order they are made.\<close>

datatype event =
    EvSet "node_id list" vars
  | EvTimeline nat
  | EvPause nat
  | EvTrigger nat

section \<open>The component\<close>

record config =
  animateOnScroll :: bool
  delay :: real
  blockColor :: string
  stagger :: real
  duration :: real

text \<open>The refs of the component (\<^verbatim>\<open>containerRef\<close>, \<^verbatim>\<open>splitRef\<close>, \<^verbatim>\<open>lines\<close>,
  \<^verbatim>\<open>blocks\<close>), the document, and what the animation engine holds: the timelines and
  triggers created so far (a handle is a position in that list) and the trace of calls.\<close>

record state =
  doc :: dom_store
  containerRef :: "node_id option"
  splitRef :: "split_handle list"
  lines :: "node_id list"
  blocks :: "node_id list"
  timelines :: "timeline list"
  triggers :: "scroll_trigger list"
  trace :: "event list"

text \<open>
  Modelled from the spec: the animation capability (GSAP, not part of the repository):
  \<^verbatim>\<open>setImmediate(target, properties)\<close> assigns properties at once, to every target of
  the array; \<^verbatim>\<open>timeline({startOffset})\<close> makes a running timeline that collects ordered
  steps and can be paused and played.
\<close>

definition gsap_set :: "state \<Rightarrow> node_id list \<Rightarrow> vars \<Rightarrow> state" where
  "gsap_set s targets vs =
     s\<lparr>doc := foldl (\<lambda>d n. foldl (\<lambda>d (p, v). set_style d n p v) d vs) (doc s) targets,
       trace := trace s @ [EvSet targets vs]\<rparr>"

definition gsap_timeline :: "state \<Rightarrow> real \<Rightarrow> nat \<times> state" where
  "gsap_timeline s dl =
     (length (timelines s),
      s\<lparr>timelines := timelines s @ [\<lparr>tl_delay = dl, tl_steps = [], tl_paused = False\<rparr>],
        trace := trace s @ [EvTimeline (length (timelines s))]\<rparr>)"

definition tl_add :: "state \<Rightarrow> nat \<Rightarrow> tween \<Rightarrow> state" where
  "tl_add s hdl step =
     s\<lparr>timelines := (timelines s)[hdl := (timelines s ! hdl)
                        \<lparr>tl_steps := tl_steps (timelines s ! hdl) @ [step]\<rparr>]\<rparr>"

definition tl_pause :: "state \<Rightarrow> nat \<Rightarrow> state" where
  "tl_pause s hdl =
     s\<lparr>timelines := (timelines s)[hdl := (timelines s ! hdl)\<lparr>tl_paused := True\<rparr>],
       trace := trace s @ [EvPause hdl]\<rparr>"

definition tl_play :: "state \<Rightarrow> nat \<Rightarrow> state" where
  "tl_play s hdl = s\<lparr>timelines := (timelines s)[hdl := (timelines s ! hdl)\<lparr>tl_paused := False\<rparr>]\<rparr>"

text \<open>
  Modelled from the spec: the viewport trigger registrar (GSAP's ScrollTrigger, not part
  of the repository), \<^verbatim>\<open>onceVisible(element, thresholdDescriptor, callback)\<close>. The
  callback of the component is \<^verbatim>\<open>() => tl.play()\<close>, kept as the timeline's handle.
  \<open>st_enter\<close> is the engine's reaction when the watched element crosses the threshold:
  a live trigger runs its callback, and a trigger created with \<^verbatim>\<open>once\<close> is then dead.
\<close>

definition ScrollTrigger_create ::
  "state \<Rightarrow> node_id option \<Rightarrow> string \<Rightarrow> bool \<Rightarrow> nat \<Rightarrow> state" where
  "ScrollTrigger_create s trg start once hdl =
     s\<lparr>triggers := triggers s @
          [\<lparr>st_trigger = trg, st_start = start, st_once = once, st_onEnter = hdl,
            st_alive = True, st_fired = 0\<rparr>],
       trace := trace s @ [EvTrigger hdl]\<rparr>"

definition st_enter :: "state \<Rightarrow> nat \<Rightarrow> state" where
  "st_enter s k =
     (if k < length (triggers s) \<and> st_alive (triggers s ! k)
      then let t = triggers s ! k;
               s1 = tl_play s (st_onEnter t)
           in s1\<lparr>triggers := (triggers s1)[k := t\<lparr>st_alive := \<not> st_once t,
                                                      st_fired := Suc (st_fired t)\<rparr>]\<rparr>
      else s)"

text \<open>
  Modelled from the spec: what a timeline does when it runs, step by step in order
  (\<^verbatim>\<open>tween(target, propertiesToSet, {duration, ease})\<close>, and the instant set). A tween
  takes a property from the value it has when the tween's turn comes to the given value;
  a set on a missing target does nothing.
\<close>

datatype phase =
    PTween node_id string "style_value option" style_value real string
    \<comment> \<open>target, property, from, to, duration, ease\<close>
  | PSet node_id string style_value

definition apply_vars ::
  "(node_id \<Rightarrow> string \<Rightarrow> style_value option) \<Rightarrow> node_id \<Rightarrow> vars
     \<Rightarrow> (node_id \<Rightarrow> string \<Rightarrow> style_value option)" where
  "apply_vars st n vs = foldl (\<lambda>st (p, v). st(n := (st n)(p \<mapsto> v))) st vs"

fun run_steps :: "(node_id \<Rightarrow> string \<Rightarrow> style_value option) \<Rightarrow> tween list \<Rightarrow> phase list" where
  "run_steps st [] = []"
| "run_steps st (TlTo n vs dur ease # steps) =
     map (\<lambda>(p, v). PTween n p (st n p) v dur ease) vs @ run_steps (apply_vars st n vs) steps"
| "run_steps st (TlSet None vs # steps) = run_steps st steps"
| "run_steps st (TlSet (Some n) vs # steps) =
     map (\<lambda>(p, v). PSet n p v) vs @ run_steps (apply_vars st n vs) steps"

text \<open>\<^verbatim>\<open>xs[i]\<close> of JavaScript: \<^verbatim>\<open>undefined\<close> out of range.\<close>

definition js_nth :: "'a list \<Rightarrow> nat \<Rightarrow> 'a option" where
  "js_nth xs i = (if i < length xs then Some (xs ! i) else None)"

subsection \<open>Activation: the callback given to \<^verbatim>\<open>useGSAP\<close>\<close>

text \<open>The body of \<^verbatim>\<open>split.lines.forEach((line) => ...)\<close>, source lines 50-63.\<close>

definition process_line :: "config \<Rightarrow> state \<Rightarrow> node_id \<Rightarrow> error + state" where
  "process_line cfg s line =
     (let (wrapper, d1) = createElement (doc s) ''div'';
          d2 = set_className d1 wrapper [''block-line-wrapper'']
      in case (case parentNode d2 line of
                 None \<Rightarrow> Inr d2
               | Some p \<Rightarrow> insertBefore d2 p wrapper line) of
           Inl e \<Rightarrow> Inl e
         | Inr d3 \<Rightarrow>
             let d4 = appendChild d3 wrapper line;
                 (block, d5) = createElement d4 ''div'';
                 d6 = set_className d5 block [''block-revealer''];
                 d7 = set_style d6 block ''backgroundColor'' (Str (blockColor cfg));
                 d8 = appendChild d7 wrapper block
             in Inr (s\<lparr>doc := d8, lines := lines s @ [line], blocks := blocks s @ [block]\<rparr>))"

text \<open>The body of \<^verbatim>\<open>elements.forEach((element) => ...)\<close>, source lines 42-64.\<close>

definition process_element ::
  "config \<Rightarrow> (dom_store \<Rightarrow> node_id \<Rightarrow> string list) \<Rightarrow> state \<Rightarrow> node_id \<Rightarrow> error + state" where
  "process_element cfg seg s element =
     (let (sp, d1) = SplitText_create seg (doc s) element;
          s1 = s\<lparr>doc := d1, splitRef := splitRef s @ [sp]\<rparr>
      in forEach (process_line cfg) s1 (split_lines sp))"

text \<open>\<^verbatim>\<open>createBlockRevealAnimation(block, line, index)\<close>, source lines 69-80.\<close>

definition createBlockRevealAnimation ::
  "config \<Rightarrow> state \<Rightarrow> node_id \<Rightarrow> node_id option \<Rightarrow> nat \<Rightarrow> nat \<times> state" where
  "createBlockRevealAnimation cfg s block line index =
     (let (hdl, s1) = gsap_timeline s (delay cfg + real index + stagger cfg);
          s2 = tl_add s1 hdl (TlTo block [(''scaleX'', Num 1)] (duration cfg) ''power4.inOut'');
          s3 = tl_add s2 hdl (TlSet line [(''opacity'', Num 1)]);
          s4 = tl_add s3 hdl (TlSet (Some block) [(''transformOrigin'', Str ''right center'')]);
          s5 = tl_add s4 hdl (TlTo block [(''scaleX'', Num 0)] (duration cfg) ''power4.inOut'')
      in (hdl, s5))"

text \<open>The two bodies of \<^verbatim>\<open>blocks.current.forEach((block, index) => ...)\<close>, source
  lines 83-96 and 98-104.\<close>

definition schedule_on_scroll :: "config \<Rightarrow> state \<Rightarrow> node_id \<times> nat \<Rightarrow> state" where
  "schedule_on_scroll cfg s bi =
     (let (block, index) = bi;
          (hdl, s1) = createBlockRevealAnimation cfg s block (js_nth (lines s) index) index;
          s2 = tl_pause s1 hdl
      in ScrollTrigger_create s2 (containerRef s2) ''top 90%'' True hdl)"

definition schedule_immediately :: "config \<Rightarrow> state \<Rightarrow> node_id \<times> nat \<Rightarrow> state" where
  "schedule_immediately cfg s bi =
     (let (block, index) = bi;
          (hdl, s1) = createBlockRevealAnimation cfg s block (js_nth (lines s) index) index
      in s1)"

definition with_index :: "'a list \<Rightarrow> ('a \<times> nat) list" where
  "with_index xs = zip xs [0..<length xs]"

definition target_elements :: "dom_store \<Rightarrow> node_id \<Rightarrow> node_id list" where
  "target_elements d c =
     (if hasAttribute d c ''data-block-reveal-text-wrapper'' then children d c else [c])"

text \<open>The initial visual state, source lines 66-67: two calls of \<^verbatim>\<open>gsap.set\<close>, each on
  a whole array.\<close>

definition set_initial_state :: "state \<Rightarrow> state" where
  "set_initial_state s =
     (let s1 = gsap_set s (lines s) [(''opacity'', Num 0)]
      in gsap_set s1 (blocks s1)
           [(''scaleX'', Num 0), (''transformOrigin'', Str ''left center'')])"

text \<open>The scheduling, source lines 82-105.\<close>

definition schedule :: "config \<Rightarrow> state \<Rightarrow> state" where
  "schedule cfg s =
     (if animateOnScroll cfg
      then foldl (schedule_on_scroll cfg) s (with_index (blocks s))
      else foldl (schedule_immediately cfg) s (with_index (blocks s)))"

text \<open>The whole callback, source lines 29-106. It returns early, leaving everything as
  it is, when the ref is not attached.\<close>

definition activate ::
  "config \<Rightarrow> (dom_store \<Rightarrow> node_id \<Rightarrow> string list) \<Rightarrow> state \<Rightarrow> error + state" where
  "activate cfg seg s =
     (case containerRef s of
        None \<Rightarrow> Inr s
      | Some c \<Rightarrow>
          let s1 = s\<lparr>splitRef := [], lines := [], blocks := []\<rparr>;
              elements = target_elements (doc s1) c
          in (case forEach (process_element cfg seg) s1 elements of
                Inl e \<Rightarrow> Inl e
              | Inr s2 \<Rightarrow> Inr (schedule cfg (set_initial_state s2))))"

subsection \<open>Deactivation: the cleanup function the callback returns\<close>

text \<open>\<^verbatim>\<open>wrapper.parentNode.insertBefore(wrapper.firstChild, wrapper); wrapper.remove()\<close>
  as JavaScript evaluates it: a \<^verbatim>\<open>TypeError\<close> when \<^verbatim>\<open>parentNode\<close> is \<^verbatim>\<open>null\<close>, and when
  \<^verbatim>\<open>firstChild\<close> is \<^verbatim>\<open>null\<close> (\<^verbatim>\<open>insertBefore\<close> takes a node).\<close>

definition unwrap :: "dom_store \<Rightarrow> node_id \<Rightarrow> error + dom_store" where
  "unwrap d wrapper =
     (case parentNode d wrapper of
        None \<Rightarrow> Inl TypeError
      | Some p \<Rightarrow>
          (case firstChild d wrapper of
             None \<Rightarrow> Inl TypeError
           | Some c \<Rightarrow>
               (case insertBefore d p c wrapper of
                  Inl e \<Rightarrow> Inl e
                | Inr d1 \<Rightarrow> Inr (node_remove d1 wrapper))))"

text \<open>The body of \<^verbatim>\<open>wrappers?.forEach((wrapper) => ...)\<close>, source lines 112-117.\<close>

definition cleanup_wrapper :: "dom_store \<Rightarrow> node_id \<Rightarrow> error + dom_store" where
  "cleanup_wrapper d wrapper =
     (if parentNode d wrapper \<noteq> None \<and> firstChild d wrapper \<noteq> None
      then unwrap d wrapper
      else Inr d)"

text \<open>The cleanup function, source lines 107-118.\<close>

definition cleanup :: "state \<Rightarrow> error + state" where
  "cleanup s =
     (let d1 = foldl revert (doc s) (splitRef s)
      in case containerRef s of
           None \<Rightarrow> Inr (s\<lparr>doc := d1\<rparr>)
         | Some c \<Rightarrow>
             (case forEach cleanup_wrapper d1 (querySelectorAll d1 c ''block-line-wrapper'') of
                Inl e \<Rightarrow> Inl e
              | Inr d2 \<Rightarrow> Inr (s\<lparr>doc := d2\<rparr>)))"

subsection \<open>Rendering: the element the component returns\<close>

text \<open>\<^verbatim>\<open><div ref={containerRef} data-block-reveal-text-wrapper="true">{children}</div>\<close>,
  source lines 125-129: the root is created with the marker attribute, the rendered
  children are put inside, and the ref is attached to the root.\<close>

definition render :: "state \<Rightarrow> node_id list \<Rightarrow> state" where
  "render s cs =
     (let (root, d1) = createElement (doc s) ''div'';
          d2 = setAttribute d1 root ''data-block-reveal-text-wrapper'' ''true'';
          d3 = foldl (\<lambda>d k. appendChild d root k) d2 cs
      in s\<lparr>doc := d3, containerRef := Some root\<rparr>)"

section \<open>Notions used in the statements and proofs\<close>

text \<open>The timeline that \<open>createBlockRevealAnimation\<close> leaves in the engine (see
  \<open>createBlockRevealAnimation_eq\<close>).\<close>

definition reveal_timeline :: "config \<Rightarrow> node_id \<Rightarrow> node_id option \<Rightarrow> nat \<Rightarrow> timeline" where
  "reveal_timeline cfg block line index =
     \<lparr>tl_delay = delay cfg + real index + stagger cfg,
      tl_steps = [TlTo block [(''scaleX'', Num 1)] (duration cfg) ''power4.inOut'',
                  TlSet line [(''opacity'', Num 1)],
                  TlSet (Some block) [(''transformOrigin'', Str ''right center'')],
                  TlTo block [(''scaleX'', Num 0)] (duration cfg) ''power4.inOut''],
      tl_paused = False\<rparr>"

text \<open>Two states with the same ref to the root and the same engine contents.\<close>

definition same_engine :: "state \<Rightarrow> state \<Rightarrow> bool" where
  "same_engine s s' \<longleftrightarrow>
     containerRef s' = containerRef s \<and> timelines s' = timelines s \<and>
     triggers s' = triggers s \<and> trace s' = trace s"

text \<open>What is known of a trigger created with \<^verbatim>\<open>once\<close> whose callback plays the timeline
  \<open>h\<close>: it has not fired and is live, or it has fired once, is dead, and the timeline
  plays.\<close>

definition trigger_ok :: "nat \<Rightarrow> nat \<Rightarrow> state \<Rightarrow> bool" where
  "trigger_ok j h s \<longleftrightarrow>
     j < length (triggers s) \<and> h < length (timelines s) \<and>
     st_once (triggers s ! j) \<and> st_onEnter (triggers s ! j) = h \<and>
     (st_alive (triggers s ! j) \<and> st_fired (triggers s ! j) = 0 \<or>
      \<not> st_alive (triggers s ! j) \<and> st_fired (triggers s ! j) = 1 \<and>
      \<not> tl_paused (timelines s ! h))"

definition trigger_done :: "nat \<Rightarrow> nat \<Rightarrow> state \<Rightarrow> bool" where
  "trigger_done j h s \<longleftrightarrow>
     trigger_ok j h s \<and> st_fired (triggers s ! j) = 1 \<and> \<not> tl_paused (timelines s ! h)"

text \<open>A well-formed document: child lists name existing nodes only, nodes that do not
  exist have no children, a node is in at most one child list and at most once, and no
  node is its own child.\<close>

definition wf_store :: "dom_store \<Rightarrow> bool" where
  "wf_store d \<longleftrightarrow>
     (\<forall>p n. n \<in> set (kids d p) \<longrightarrow> n < next_id d) \<and>
     (\<forall>p. next_id d \<le> p \<longrightarrow> kids d p = []) \<and>
     (\<forall>p q n. n \<in> set (kids d p) \<longrightarrow> n \<in> set (kids d q) \<longrightarrow> p = q) \<and>
     (\<forall>p. distinct (kids d p)) \<and>
     (\<forall>p. p \<notin> set (kids d p))"

text \<open>What holds in the middle of an activation that started in \<open>s0\<close>, when the targets
  \<open>P\<close> have been segmented and the lines \<open>r\<close> of the last of them are still to be
  wrapped: the document is well-formed; the nodes that existed before are as they were,
  but for the child lists of the targets; the handles in \<open>splitRef\<close> are those of the
  targets and hold their original child lists; and every line wrapped so far sits, with
  its block, in a wrapper of its own.\<close>

definition act_inv :: "state \<Rightarrow> node_id set \<Rightarrow> node_id list \<Rightarrow> state \<Rightarrow> bool" where
  "act_inv s0 P r s \<longleftrightarrow>
     wf_store (doc s) \<and> next_id (doc s0) \<le> next_id (doc s) \<and>
     (\<forall>e\<in>P. e < next_id (doc s0)) \<and>
     (\<forall>m<next_id (doc s0). info (doc s) m = info (doc s0) m) \<and>
     (\<forall>m<next_id (doc s0). m \<notin> P \<longrightarrow> kids (doc s) m = kids (doc s0) m) \<and>
     split_element ` set (splitRef s) = P \<and>
     (\<forall>sp\<in>set (splitRef s). split_original sp = kids (doc s0) (split_element sp)) \<and>
     lines s @ r = concat (map split_lines (splitRef s)) \<and>
     length (blocks s) = length (lines s) \<and>
     distinct (lines s @ r) \<and>
     (\<forall>i<length (lines s).
        \<exists>w\<ge>next_id (doc s0).
          kids (doc s) w = [lines s ! i, blocks s ! i] \<and>
          info (doc s) w = Element ''div'' [''block-line-wrapper''] [] \<and>
          info (doc s) (blocks s ! i) = Element ''div'' [''block-revealer''] [])"

text \<open>Activation followed at once by deactivation.\<close>

definition round_trip ::
  "config \<Rightarrow> (dom_store \<Rightarrow> node_id \<Rightarrow> string list) \<Rightarrow> state \<Rightarrow> error + state" where
  "round_trip cfg seg s =
     (case activate cfg seg s of Inl e \<Rightarrow> Inl e | Inr s1 \<Rightarrow> cleanup s1)"

section \<open>Small documents to run the component on\<close>

text \<open>A root with the marker attribute around one paragraph of text, which the layout
  breaks into three lines; the configuration is the component's defaults.\<close>

definition example_doc :: dom_store where
  "example_doc =
     \<lparr>kids = (\<lambda>_. [])(0 := [1], 1 := [2]),
      info = (\<lambda>_. TextNode [])
               (0 := Element ''div'' [] [(''data-block-reveal-text-wrapper'', ''true'')],
                1 := Element ''p'' [] [],
                2 := TextNode ''one two three''),
      style = (\<lambda>_. Map.empty),
      next_id = 3\<rparr>"

definition example_state :: state where
  "example_state =
     \<lparr>doc = example_doc, containerRef = Some 0, splitRef = [], lines = [], blocks = [],
      timelines = [], triggers = [], trace = []\<rparr>"

definition example_config :: config where
  "example_config =
     \<lparr>animateOnScroll = True, delay = 0, blockColor = ''#000'', stagger = 0.15,
      duration = 0.75\<rparr>"

text \<open>The first use on the demo page switches the scroll gating off.\<close>

definition example_config_immediate :: config where
  "example_config_immediate = example_config\<lparr>animateOnScroll := False\<rparr>"

definition example_seg :: "dom_store \<Rightarrow> node_id \<Rightarrow> string list" where
  "example_seg d e = [''one'', ''two'', ''three'']"

text \<open>A paragraph that is itself the root, without the marker attribute: the single-target
  mode.\<close>

definition plain_doc :: dom_store where
  "plain_doc =
     \<lparr>kids = (\<lambda>_. [])(0 := [1]),
      info = (\<lambda>_. TextNode [])(0 := Element ''p'' [] [], 1 := TextNode ''one two three''),
      style = (\<lambda>_. Map.empty),
      next_id = 2\<rparr>"

definition plain_state :: state where
  "plain_state =
     \<lparr>doc = plain_doc, containerRef = Some 0, splitRef = [], lines = [], blocks = [],
      timelines = [], triggers = [], trace = []\<rparr>"

text \<open>A root whose paragraph carries the class name of the wrappers, and a layout with
  one line per target.\<close>

definition clash_doc :: dom_store where
  "clash_doc =
     \<lparr>kids = (\<lambda>_. [])(0 := [1], 1 := [2]),
      info = (\<lambda>_. TextNode [])
               (0 := Element ''div'' [] [(''data-block-reveal-text-wrapper'', ''true'')],
                1 := Element ''p'' [''block-line-wrapper''] [],
                2 := TextNode ''hi''),
      style = (\<lambda>_. Map.empty),
      next_id = 3\<rparr>"

definition clash_state :: state where
  "clash_state =
     \<lparr>doc = clash_doc, containerRef = Some 0, splitRef = [], lines = [], blocks = [],
      timelines = [], triggers = [], trace = []\<rparr>"

definition one_line_seg :: "dom_store \<Rightarrow> node_id \<Rightarrow> string list" where
  "one_line_seg d e = [''hi'']"

text \<open>A paragraph with one wrapped line (wrapper 1 around line 2 and block 3), and a
  wrapper 4 that is nowhere in the tree.\<close>

definition wrapped_doc :: dom_store where
  "wrapped_doc =
     \<lparr>kids = (\<lambda>_. [])(0 := [1], 1 := [2, 3]),
      info = (\<lambda>_. TextNode [])
               (0 := Element ''p'' [] [],
                1 := Element ''div'' [''block-line-wrapper''] [],
                2 := Element ''div'' [''block-line1''] [],
                3 := Element ''div'' [''block-revealer''] [],
                4 := Element ''div'' [''block-line-wrapper''] []),
      style = (\<lambda>_. Map.empty),
      next_id = 5\<rparr>"

text \<open>A layout in which no target has any line.\<close>

definition empty_seg :: "dom_store \<Rightarrow> node_id \<Rightarrow> string list" where
  "empty_seg d e = []"

section \<open>Basic facts about the document operations\<close>

lemma parentNode_SomeD:
  "parentNode d n = Some p \<Longrightarrow> n \<in> set (kids d p) \<and> p < next_id d"
  by (auto simp: parentNode_def find_Some_iff)

lemma next_id_node_remove [simp]: "next_id (node_remove d n) = next_id d"
  by (simp add: node_remove_def split: option.splits)

lemma info_node_remove [simp]: "info (node_remove d n) = info d"
  by (simp add: node_remove_def split: option.splits)

lemma style_node_remove [simp]: "style (node_remove d n) = style d"
  by (simp add: node_remove_def split: option.splits)

lemma next_id_appendChild [simp]: "next_id (appendChild d p n) = next_id d"
  by (simp add: appendChild_def Let_def)

lemma info_appendChild [simp]: "info (appendChild d p n) = info d"
  by (simp add: appendChild_def Let_def)

lemma style_appendChild [simp]: "style (appendChild d p n) = style d"
  by (simp add: appendChild_def Let_def)

lemma insertBefore_InrD:
  "insertBefore d p n r = Inr d' \<Longrightarrow>
     next_id d' = next_id d \<and> info d' = info d \<and> style d' = style d"
  by (auto simp: insertBefore_def Let_def split: if_splits)

lemma insertBefore_at_parent:
  "parentNode d r = Some p \<Longrightarrow> \<exists>d'. insertBefore d p n r = Inr d'"
  by (auto simp: insertBefore_def Let_def dest: parentNode_SomeD)

lemma fst_createElement [simp]: "fst (createElement d tag) = next_id d"
  by (simp add: createElement_def)

lemma snd_createElement [simp]:
  "next_id (snd (createElement d tag)) = Suc (next_id d)"
  "kids (snd (createElement d tag)) = (kids d)(next_id d := [])"
  "info (snd (createElement d tag)) = (info d)(next_id d := Element tag [] [])"
  "style (snd (createElement d tag)) = (style d)(next_id d := Map.empty)"
  by (simp_all add: createElement_def)

lemma set_className_fields [simp]:
  "next_id (set_className d n cls) = next_id d"
  "kids (set_className d n cls) = kids d"
  "style (set_className d n cls) = style d"
  by (simp_all add: set_className_def)

lemma set_style_fields [simp]:
  "next_id (set_style d n p v) = next_id d"
  "kids (set_style d n p v) = kids d"
  "info (set_style d n p v) = info d"
  by (simp_all add: set_style_def)

lemma process_line_basic:
  "\<exists>d'. process_line cfg s l =
          Inr (s\<lparr>doc := d', lines := lines s @ [l],
                 blocks := blocks s @ [Suc (next_id (doc s))]\<rparr>)"
proof -
  let ?w = "fst (createElement (doc s) ''div'')"
  let ?d2 = "set_className (snd (createElement (doc s) ''div'')) ?w [''block-line-wrapper'']"
  show ?thesis
  proof (cases "parentNode ?d2 l")
    case None
    then show ?thesis by (simp add: process_line_def Let_def split_beta) blast
  next
    case (Some p)
    then obtain d3 where d3: "insertBefore ?d2 p ?w l = Inr d3"
      using insertBefore_at_parent by blast
    then have "next_id d3 = Suc (next_id (doc s))" by (auto dest!: insertBefore_InrD)
    with Some d3 show ?thesis by (simp add: process_line_def Let_def split_beta) blast
  qed
qed

lemma forEach_rule:
  assumes "I s xs"
    and "\<And>s x r. I s (x # r) \<Longrightarrow> \<exists>s'. f s x = Inr s' \<and> I s' r"
  shows "\<exists>s'. forEach f s xs = Inr s' \<and> I s' []"
  using assms(1)
proof (induction xs arbitrary: s)
  case Nil
  then show ?case by simp
next
  case (Cons x xs)
  from assms(2) [OF Cons.prems] obtain s1 where s1: "f s x = Inr s1" "I s1 xs" by blast
  from Cons.IH [OF s1(2)] s1(1) show ?case by simp
qed


lemma process_lines_basic:
  assumes "length (blocks s) = length (lines s)" "same_engine s0 s"
  shows "\<exists>s'. forEach (process_line cfg) s ls = Inr s' \<and>
              (length (blocks s') = length (lines s') \<and> same_engine s0 s')"
proof (rule forEach_rule [where I = "\<lambda>s r. length (blocks s) = length (lines s) \<and> same_engine s0 s"])
  show "length (blocks s) = length (lines s) \<and> same_engine s0 s" using assms by simp
next
  fix s x and r :: "node_id list"
  assume a: "length (blocks s) = length (lines s) \<and> same_engine s0 s"
  obtain d' where "process_line cfg s x =
          Inr (s\<lparr>doc := d', lines := lines s @ [x],
                 blocks := blocks s @ [Suc (next_id (doc s))]\<rparr>)"
    using process_line_basic by blast
  with a show "\<exists>s'. process_line cfg s x = Inr s' \<and>
            (length (blocks s') = length (lines s') \<and> same_engine s0 s')"
    by (simp add: same_engine_def)
qed

lemma process_element_basic:
  assumes "length (blocks s) = length (lines s)" "same_engine s0 s"
  shows "\<exists>s'. process_element cfg seg s e = Inr s' \<and>
              (length (blocks s') = length (lines s') \<and> same_engine s0 s')"
  unfolding process_element_def Let_def split_beta
  by (rule process_lines_basic) (use assms in \<open>simp_all add: same_engine_def\<close>)

lemma process_elements_basic:
  assumes "length (blocks s) = length (lines s)" "same_engine s0 s"
  shows "\<exists>s'. forEach (process_element cfg seg) s es = Inr s' \<and>
              (length (blocks s') = length (lines s') \<and> same_engine s0 s')"
proof (rule forEach_rule [where I = "\<lambda>s r. length (blocks s) = length (lines s) \<and> same_engine s0 s"])
  show "length (blocks s) = length (lines s) \<and> same_engine s0 s" using assms by simp
next
  fix s x and r :: "node_id list"
  assume a: "length (blocks s) = length (lines s) \<and> same_engine s0 s"
  then show "\<exists>s'. process_element cfg seg s x = Inr s' \<and>
            (length (blocks s') = length (lines s') \<and> same_engine s0 s')"
    using process_element_basic by blast
qed

section \<open>The scheduling loops in closed form\<close>

lemma createBlockRevealAnimation_eq:
  "createBlockRevealAnimation cfg s block line index =
     (length (timelines s),
      s\<lparr>timelines := timelines s @ [reveal_timeline cfg block line index],
        trace := trace s @ [EvTimeline (length (timelines s))]\<rparr>)"
  by (simp add: createBlockRevealAnimation_def gsap_timeline_def tl_add_def reveal_timeline_def)

lemma with_index_snoc: "with_index (xs @ [x]) = with_index xs @ [(x, length xs)]"
  by (simp add: with_index_def)

lemma length_with_index: "length (with_index xs) = length xs"
  by (simp add: with_index_def)

lemma with_index_Nil: "with_index [] = []"
  by (simp add: with_index_def)

lemma schedule_immediately_eq:
  "schedule_immediately cfg s (b, i) =
     s\<lparr>timelines := timelines s @ [reveal_timeline cfg b (js_nth (lines s) i) i],
       trace := trace s @ [EvTimeline (length (timelines s))]\<rparr>"
  by (simp add: schedule_immediately_def createBlockRevealAnimation_eq)

lemma schedule_on_scroll_eq:
  "schedule_on_scroll cfg s (b, i) =
     s\<lparr>timelines := timelines s @ [(reveal_timeline cfg b (js_nth (lines s) i) i)\<lparr>tl_paused := True\<rparr>],
       triggers := triggers s @
          [\<lparr>st_trigger = containerRef s, st_start = ''top 90%'', st_once = True,
            st_onEnter = length (timelines s), st_alive = True, st_fired = 0\<rparr>],
       trace := trace s @ [EvTimeline (length (timelines s)), EvPause (length (timelines s)),
                           EvTrigger (length (timelines s))]\<rparr>"
  by (simp add: schedule_on_scroll_def createBlockRevealAnimation_eq tl_pause_def
      ScrollTrigger_create_def)

lemma immediate_loop:
  "foldl (schedule_immediately cfg) s (with_index bs) =
     s\<lparr>timelines := timelines s @
          map (\<lambda>(b, i). reveal_timeline cfg b (js_nth (lines s) i) i) (with_index bs),
       trace := trace s @ map (\<lambda>i. EvTimeline (length (timelines s) + i)) [0..<length bs]\<rparr>"
proof (induction bs rule: rev_induct)
  case Nil
  show ?case by (simp add: with_index_Nil)
next
  case (snoc b bs)
  show ?case
    by (simp add: with_index_snoc snoc.IH schedule_immediately_eq length_with_index)
qed

lemma scroll_loop:
  "foldl (schedule_on_scroll cfg) s (with_index bs) =
     s\<lparr>timelines := timelines s @
          map (\<lambda>(b, i). (reveal_timeline cfg b (js_nth (lines s) i) i)\<lparr>tl_paused := True\<rparr>)
            (with_index bs),
       triggers := triggers s @
          map (\<lambda>i. \<lparr>st_trigger = containerRef s, st_start = ''top 90%'', st_once = True,
                     st_onEnter = length (timelines s) + i, st_alive = True, st_fired = 0\<rparr>)
            [0..<length bs],
       trace := trace s @
          concat (map (\<lambda>i. [EvTimeline (length (timelines s) + i),
                             EvPause (length (timelines s) + i),
                             EvTrigger (length (timelines s) + i)]) [0..<length bs])\<rparr>"
proof (induction bs rule: rev_induct)
  case Nil
  show ?case by (simp add: with_index_Nil)
next
  case (snoc b bs)
  show ?case
    by (simp add: with_index_snoc snoc.IH schedule_on_scroll_eq length_with_index)
qed

section \<open>The initial state and the result of an activation\<close>

lemma map_add_twice: "(m ++ f) ++ f = m ++ f"
  by (rule ext) (simp add: map_add_def split: option.splits)

lemma style_set_vars:
  "style (foldl (\<lambda>d (p, v). set_style d n p v) d vs) m =
     (if m = n then style d n ++ map_of (rev vs) else style d m)"
proof -
  have "\<forall>m q. style (foldl (\<lambda>d (p, v). set_style d n p v) d vs) m q =
     (if m = n then (style d n ++ map_of (rev vs)) q else style d m q)"
    by (induction vs rule: rev_induct)
      (auto simp: set_style_def split_beta map_add_def split: option.splits)
  then show ?thesis by (auto simp: fun_eq_iff)
qed

lemma keep_set_vars:
  "kids (foldl (\<lambda>d (p, v). set_style d n p v) d vs) = kids d"
  "info (foldl (\<lambda>d (p, v). set_style d n p v) d vs) = info d"
  "next_id (foldl (\<lambda>d (p, v). set_style d n p v) d vs) = next_id d"
  by (induction vs rule: rev_induct) (simp_all add: split_beta)

lemma style_set_targets:
  "style (foldl (\<lambda>d n. foldl (\<lambda>d (p, v). set_style d n p v) d vs) d ts) n =
     (if n \<in> set ts then style d n ++ map_of (rev vs) else style d n)"
proof -
  have "\<forall>m. style (foldl (\<lambda>d n. foldl (\<lambda>d (p, v). set_style d n p v) d vs) d ts) m =
     (if m \<in> set ts then style d m ++ map_of (rev vs) else style d m)"
    by (induction ts rule: rev_induct) (auto simp: style_set_vars map_add_twice)
  then show ?thesis by simp
qed

lemma keep_set_targets:
  "kids (foldl (\<lambda>d n. foldl (\<lambda>d (p, v). set_style d n p v) d vs) d ts) = kids d"
  "info (foldl (\<lambda>d n. foldl (\<lambda>d (p, v). set_style d n p v) d vs) d ts) = info d"
  "next_id (foldl (\<lambda>d n. foldl (\<lambda>d (p, v). set_style d n p v) d vs) d ts) = next_id d"
  by (induction ts rule: rev_induct) (simp_all add: keep_set_vars)

lemma gsap_set_fields [simp]:
  "lines (gsap_set s ts vs) = lines s"
  "blocks (gsap_set s ts vs) = blocks s"
  "splitRef (gsap_set s ts vs) = splitRef s"
  "containerRef (gsap_set s ts vs) = containerRef s"
  "timelines (gsap_set s ts vs) = timelines s"
  "triggers (gsap_set s ts vs) = triggers s"
  "trace (gsap_set s ts vs) = trace s @ [EvSet ts vs]"
  "kids (doc (gsap_set s ts vs)) = kids (doc s)"
  "info (doc (gsap_set s ts vs)) = info (doc s)"
  "next_id (doc (gsap_set s ts vs)) = next_id (doc s)"
  by (simp_all add: gsap_set_def keep_set_targets)

lemma style_gsap_set:
  "style (doc (gsap_set s ts vs)) n =
     (if n \<in> set ts then style (doc s) n ++ map_of (rev vs) else style (doc s) n)"
  by (simp add: gsap_set_def style_set_targets)

lemma set_initial_state_fields [simp]:
  "lines (set_initial_state s) = lines s"
  "blocks (set_initial_state s) = blocks s"
  "splitRef (set_initial_state s) = splitRef s"
  "containerRef (set_initial_state s) = containerRef s"
  "timelines (set_initial_state s) = timelines s"
  "triggers (set_initial_state s) = triggers s"
  "trace (set_initial_state s) =
     trace s @ [EvSet (lines s) [(''opacity'', Num 0)],
                EvSet (blocks s) [(''scaleX'', Num 0), (''transformOrigin'', Str ''left center'')]]"
  "kids (doc (set_initial_state s)) = kids (doc s)"
  "info (doc (set_initial_state s)) = info (doc s)"
  "next_id (doc (set_initial_state s)) = next_id (doc s)"
  by (simp_all add: set_initial_state_def Let_def)

lemma style_initial_line:
  "l \<in> set (lines s) \<Longrightarrow> style (doc (set_initial_state s)) l ''opacity'' = Some (Num 0)"
  by (simp add: set_initial_state_def Let_def style_gsap_set map_add_def)

lemma style_initial_block:
  "b \<in> set (blocks s) \<Longrightarrow>
     style (doc (set_initial_state s)) b ''scaleX'' = Some (Num 0) \<and>
     style (doc (set_initial_state s)) b ''transformOrigin'' = Some (Str ''left center'')"
  by (simp add: set_initial_state_def Let_def style_gsap_set map_add_def)

lemma schedule_fields [simp]:
  "lines (schedule cfg s) = lines s"
  "blocks (schedule cfg s) = blocks s"
  "splitRef (schedule cfg s) = splitRef s"
  "containerRef (schedule cfg s) = containerRef s"
  "doc (schedule cfg s) = doc s"
  by (simp_all add: schedule_def immediate_loop scroll_loop)

lemma schedule_timelines:
  "timelines (schedule cfg s) =
     timelines s @ map (\<lambda>(b, i). (reveal_timeline cfg b (js_nth (lines s) i) i)
                                      \<lparr>tl_paused := animateOnScroll cfg\<rparr>) (with_index (blocks s))"
  by (simp add: schedule_def immediate_loop scroll_loop reveal_timeline_def)

lemma schedule_triggers:
  "triggers (schedule cfg s) =
     triggers s @
     (if animateOnScroll cfg
      then map (\<lambda>i. \<lparr>st_trigger = containerRef s, st_start = ''top 90%'', st_once = True,
                     st_onEnter = length (timelines s) + i, st_alive = True, st_fired = 0\<rparr>)
             [0..<length (blocks s)]
      else [])"
  by (simp add: schedule_def immediate_loop scroll_loop)

lemma schedule_trace:
  "trace (schedule cfg s) =
     trace s @
     concat (map (\<lambda>i. if animateOnScroll cfg
                       then [EvTimeline (length (timelines s) + i),
                             EvPause (length (timelines s) + i),
                             EvTrigger (length (timelines s) + i)]
                       else [EvTimeline (length (timelines s) + i)]) [0..<length (blocks s)])"
  by (simp add: schedule_def immediate_loop scroll_loop)

lemma nth_with_index: "i < length xs \<Longrightarrow> with_index xs ! i = (xs ! i, i)"
  by (simp add: with_index_def)

lemma activate_Some:
  assumes "containerRef s = Some c"
  shows "\<exists>s2. forEach (process_element cfg seg) (s\<lparr>splitRef := [], lines := [], blocks := []\<rparr>)
                 (target_elements (doc s) c) = Inr s2 \<and>
              length (blocks s2) = length (lines s2) \<and> same_engine s s2 \<and>
              activate cfg seg s = Inr (schedule cfg (set_initial_state s2))"
proof -
  let ?s1 = "s\<lparr>splitRef := [], lines := [], blocks := []\<rparr>"
  have "length (blocks ?s1) = length (lines ?s1)" "same_engine s ?s1"
    by (simp_all add: same_engine_def)
  from process_elements_basic [OF this]
  obtain s2 where "forEach (process_element cfg seg) ?s1 (target_elements (doc s) c) = Inr s2"
    "length (blocks s2) = length (lines s2)" "same_engine s s2" by blast
  then show ?thesis using assms by (simp add: activate_def Let_def)
qed

lemma length_make_lines: "length (fst (make_lines d k txts)) = length txts"
  by (induction txts arbitrary: d k) (simp_all add: split_beta Let_def)

lemma process_lines_lines:
  "\<exists>s'. forEach (process_line cfg) s ls = Inr s' \<and> lines s' = lines s @ ls"
proof -
  have "\<exists>s'. forEach (process_line cfg) s ls = Inr s' \<and> lines s' @ [] = lines s @ ls"
  proof (rule forEach_rule [where I = "\<lambda>s' r. lines s' @ r = lines s @ ls"])
    show "lines s @ ls = lines s @ ls" by simp
  next
    fix s1 :: state and x and r :: "node_id list"
    assume a: "lines s1 @ x # r = lines s @ ls"
    obtain d' where "process_line cfg s1 x =
          Inr (s1\<lparr>doc := d', lines := lines s1 @ [x],
                 blocks := blocks s1 @ [Suc (next_id (doc s1))]\<rparr>)"
      using process_line_basic by blast
    with a show "\<exists>s'. process_line cfg s1 x = Inr s' \<and> lines s' @ r = lines s @ ls"
      by simp
  qed
  then show ?thesis by simp
qed

lemma process_element_count:
  "\<exists>s'. process_element cfg seg s e = Inr s' \<and>
        length (lines s') = length (lines s) + length (seg (doc s) e)"
proof -
  let ?sp = "fst (SplitText_create seg (doc s) e)"
  let ?s1 = "s\<lparr>doc := snd (SplitText_create seg (doc s) e), splitRef := splitRef s @ [?sp]\<rparr>"
  obtain s' where "forEach (process_line cfg) ?s1 (split_lines ?sp) = Inr s'"
    "lines s' = lines ?s1 @ split_lines ?sp"
    using process_lines_lines by blast
  moreover have "length (split_lines ?sp) = length (seg (doc s) e)"
    by (simp add: SplitText_create_def split_beta length_make_lines)
  ultimately show ?thesis
    by (simp add: process_element_def Let_def split_beta)
qed

lemma process_elements_count:
  assumes "\<forall>d e. length (seg d e) = k"
  shows "\<exists>s'. forEach (process_element cfg seg) s es = Inr s' \<and>
        length (lines s') = length (lines s) + k * length es"
proof (induction es arbitrary: s)
  case Nil
  show ?case by simp
next
  case (Cons e es)
  obtain s1 where s1: "process_element cfg seg s e = Inr s1"
    "length (lines s1) = length (lines s) + length (seg (doc s) e)"
    using process_element_count by blast
  obtain s' where "forEach (process_element cfg seg) s1 es = Inr s'"
    "length (lines s') = length (lines s1) + k * length es"
    using Cons.IH by blast
  with s1 assms show ?case by simp
qed

lemma activate_count:
  assumes "containerRef s = Some c" "\<forall>d e. length (seg d e) = k"
    and "activate cfg seg s = Inr s'"
  shows "length (lines s') = k * length (target_elements (doc s) c)"
proof -
  obtain s2 where s2: "forEach (process_element cfg seg)
       (s\<lparr>splitRef := [], lines := [], blocks := []\<rparr>) (target_elements (doc s) c) = Inr s2"
    "length (lines s2) = length (lines (s\<lparr>splitRef := [], lines := [], blocks := []\<rparr>)) +
        k * length (target_elements (doc s) c)"
    using process_elements_count [OF assms(2)] by blast
  with assms(1,3) show ?thesis by (auto simp: activate_def Let_def)
qed

section \<open>Visibility triggers that fire once\<close>

lemma play_keeps_playing:
  "\<not> tl_paused (xs ! h) \<Longrightarrow> \<not> tl_paused (xs[a := (xs ! a)\<lparr>tl_paused := False\<rparr>] ! h)"
  by (cases "a = h"; cases "a < length xs"; simp add: list_update_beyond)

lemma st_enter_ok: "trigger_ok j h s \<Longrightarrow> trigger_ok j h (st_enter s k)"
  by (auto simp: trigger_ok_def st_enter_def tl_play_def Let_def nth_list_update
      dest: play_keeps_playing)

lemma st_enter_done: "trigger_done j h s \<Longrightarrow> trigger_done j h (st_enter s k)"
  by (auto simp: trigger_done_def trigger_ok_def st_enter_def tl_play_def Let_def
      nth_list_update dest: play_keeps_playing)

lemma st_enter_fires: "trigger_ok j h s \<Longrightarrow> trigger_done j h (st_enter s j)"
  by (auto simp: trigger_done_def trigger_ok_def st_enter_def tl_play_def Let_def
      nth_list_update dest: play_keeps_playing)

lemma enters_ok: "trigger_ok j h s \<Longrightarrow> trigger_ok j h (foldl st_enter s evs)"
  by (induction evs arbitrary: s) (simp_all add: st_enter_ok)

lemma enters_done: "trigger_done j h s \<Longrightarrow> trigger_done j h (foldl st_enter s evs)"
  by (induction evs arbitrary: s) (simp_all add: st_enter_done)

lemma enters_fires:
  "trigger_ok j h s \<Longrightarrow> j \<in> set evs \<Longrightarrow> trigger_done j h (foldl st_enter s evs)"
proof (induction evs arbitrary: s)
  case Nil
  then show ?case by simp
next
  case (Cons k evs)
  show ?case
  proof (cases "k = j")
    case True
    with Cons.prems(1) show ?thesis by (simp add: st_enter_fires enters_done)
  next
    case False
    with Cons show ?thesis by (simp add: st_enter_ok)
  qed
qed

lemma trigger_ok_fired: "trigger_ok j h s \<Longrightarrow> st_fired (triggers s ! j) \<le> 1"
  by (auto simp: trigger_ok_def)

section \<open>The example document\<close>

lemma example_targets: "target_elements (doc example_state) 0 = [1]"
  by (simp add: example_state_def example_doc_def target_elements_def hasAttribute_def
      children_def is_element_def)

lemma example_lines:
  assumes "activate cfg example_seg example_state = Inr s'"
  shows "length (lines s') = 3"
proof -
  have "containerRef example_state = Some 0" by (simp add: example_state_def)
  moreover have "\<forall>d e. length (example_seg d e) = 3" by (simp add: example_seg_def)
  ultimately have "length (lines s') = 3 * length (target_elements (doc example_state) 0)"
    using assms by (rule activate_count)
  then show ?thesis by (simp add: example_targets)
qed

lemma example_ref: "containerRef example_state = Some 0"
  by (simp add: example_state_def)

section \<open>Well-formed documents\<close>

lemma wf_storeI:
  assumes "\<And>p n. n \<in> set (kids d p) \<Longrightarrow> n < next_id d"
    and "\<And>p. next_id d \<le> p \<Longrightarrow> kids d p = []"
    and "\<And>p q n. n \<in> set (kids d p) \<Longrightarrow> n \<in> set (kids d q) \<Longrightarrow> p = q"
    and "\<And>p. distinct (kids d p)"
    and "\<And>p. p \<notin> set (kids d p)"
  shows "wf_store d"
  unfolding wf_store_def using assms by blast

lemma wf_kid_less: "wf_store d \<Longrightarrow> n \<in> set (kids d p) \<Longrightarrow> n < next_id d"
  unfolding wf_store_def by blast

lemma wf_fresh_kids: "wf_store d \<Longrightarrow> next_id d \<le> p \<Longrightarrow> kids d p = []"
  unfolding wf_store_def by blast

lemma wf_parent_less:
  assumes "wf_store d" "n \<in> set (kids d p)"
  shows "p < next_id d"
proof (rule ccontr)
  assume "\<not> p < next_id d"
  then have "kids d p = []" using assms(1) by (simp add: wf_fresh_kids)
  with assms(2) show False by simp
qed

lemma wf_one_parent:
  "wf_store d \<Longrightarrow> n \<in> set (kids d p) \<Longrightarrow> n \<in> set (kids d q) \<Longrightarrow> p = q"
  unfolding wf_store_def by blast

lemma wf_distinct: "wf_store d \<Longrightarrow> distinct (kids d p)"
  unfolding wf_store_def by blast

lemma wf_irrefl: "wf_store d \<Longrightarrow> p \<notin> set (kids d p)"
  unfolding wf_store_def by blast

lemma wf_parentNode:
  assumes "wf_store d"
  shows "parentNode d n = Some p \<longleftrightarrow> n \<in> set (kids d p)"
proof
  assume "parentNode d n = Some p"
  then show "n \<in> set (kids d p)" by (simp add: parentNode_SomeD)
next
  assume a: "n \<in> set (kids d p)"
  have "p < next_id d" using assms a by (rule wf_parent_less)
  with a have "parentNode d n \<noteq> None"
    by (auto simp: parentNode_def find_None_iff)
  then obtain q where q: "parentNode d n = Some q" by auto
  then have "n \<in> set (kids d q)" by (simp add: parentNode_SomeD)
  with assms a have "p = q" by (rule wf_one_parent)
  with q show "parentNode d n = Some p" by simp
qed

lemma wf_parentNode_None:
  assumes "wf_store d"
  shows "parentNode d n = None \<longleftrightarrow> (\<forall>p. n \<notin> set (kids d p))"
proof
  assume "parentNode d n = None"
  then show "\<forall>p. n \<notin> set (kids d p)"
    using wf_parentNode [OF assms, of n] by auto
next
  assume "\<forall>p. n \<notin> set (kids d p)"
  then show "parentNode d n = None"
    by (cases "parentNode d n") (auto dest: parentNode_SomeD)
qed

lemma kids_node_remove:
  assumes "wf_store d"
  shows "kids (node_remove d n) q = remove1 n (kids d q)"
proof (cases "parentNode d n")
  case None
  then have "n \<notin> set (kids d q)" using assms by (simp add: wf_parentNode_None)
  then have "remove1 n (kids d q) = kids d q" by (simp add: remove1_idem)
  with None show ?thesis by (simp add: node_remove_def)
next
  case (Some p)
  then have np: "n \<in> set (kids d p)" by (simp add: parentNode_SomeD)
  show ?thesis
  proof (cases "q = p")
    case True
    with Some show ?thesis by (simp add: node_remove_def)
  next
    case False
    with np assms have "n \<notin> set (kids d q)" using wf_one_parent by blast
    then have "remove1 n (kids d q) = kids d q" by (simp add: remove1_idem)
    with Some False show ?thesis by (simp add: node_remove_def)
  qed
qed

lemma set_kids_node_remove:
  "wf_store d \<Longrightarrow> set (kids (node_remove d n) q) = set (kids d q) - {n}"
  by (simp add: kids_node_remove wf_distinct)

lemma wf_cong:
  "kids d' = kids d \<Longrightarrow> next_id d' = next_id d \<Longrightarrow> wf_store d' = wf_store d"
  by (simp add: wf_store_def)

lemma wf_node_remove:
  assumes "wf_store d"
  shows "wf_store (node_remove d n)"
proof (rule wf_storeI)
  note s = set_kids_node_remove [OF assms]
  show "m < next_id (node_remove d n)" if "m \<in> set (kids (node_remove d n) p)" for p m
  proof -
    from that have "m \<in> set (kids d p)" by (simp add: s)
    with assms show ?thesis by (simp add: wf_kid_less)
  qed
  show "kids (node_remove d n) p = []" if "next_id (node_remove d n) \<le> p" for p
    using that assms by (simp add: kids_node_remove wf_fresh_kids)
  show "p = q" if "m \<in> set (kids (node_remove d n) p)" "m \<in> set (kids (node_remove d n) q)"
    for p q m
  proof -
    from that have "m \<in> set (kids d p)" "m \<in> set (kids d q)" by (simp_all add: s)
    with assms show ?thesis by (rule wf_one_parent)
  qed
  show "distinct (kids (node_remove d n) p)" for p
    using assms by (simp add: kids_node_remove wf_distinct)
  show "p \<notin> set (kids (node_remove d n) p)" for p
    using assms by (simp add: s wf_irrefl)
qed

lemma kids_createElement: "wf_store d \<Longrightarrow> kids (snd (createElement d tag)) = kids d"
  by (auto simp: fun_eq_iff wf_fresh_kids)

lemma wf_createElement:
  assumes "wf_store d"
  shows "wf_store (snd (createElement d tag))"
proof -
  have "wf_store (d\<lparr>next_id := Suc (next_id d)\<rparr>)"
  proof (rule wf_storeI)
    show "m < next_id (d\<lparr>next_id := Suc (next_id d)\<rparr>)"
      if "m \<in> set (kids (d\<lparr>next_id := Suc (next_id d)\<rparr>) p)" for p m
      using that wf_kid_less [OF assms, of m p] by simp
    show "kids (d\<lparr>next_id := Suc (next_id d)\<rparr>) p = []"
      if "next_id (d\<lparr>next_id := Suc (next_id d)\<rparr>) \<le> p" for p
      using that assms by (simp add: wf_fresh_kids)
    show "p = q" if "m \<in> set (kids (d\<lparr>next_id := Suc (next_id d)\<rparr>) p)"
      "m \<in> set (kids (d\<lparr>next_id := Suc (next_id d)\<rparr>) q)" for p q m
      using that wf_one_parent [OF assms, of m p q] by simp
    show "distinct (kids (d\<lparr>next_id := Suc (next_id d)\<rparr>) p)" for p
      using assms by (simp add: wf_distinct)
    show "p \<notin> set (kids (d\<lparr>next_id := Suc (next_id d)\<rparr>) p)" for p
      using assms by (simp add: wf_irrefl)
  qed
  moreover have "wf_store (snd (createElement d tag)) = wf_store (d\<lparr>next_id := Suc (next_id d)\<rparr>)"
  proof (rule wf_cong)
    show "kids (snd (createElement d tag)) = kids (d\<lparr>next_id := Suc (next_id d)\<rparr>)"
      using assms kids_createElement [of d tag] by simp
    show "next_id (snd (createElement d tag)) = next_id (d\<lparr>next_id := Suc (next_id d)\<rparr>)"
      by simp
  qed
  ultimately show ?thesis by blast
qed

lemma wf_set_className [simp]: "wf_store (set_className d n cls) = wf_store d"
  by (rule wf_cong) simp_all

lemma wf_set_style [simp]: "wf_store (set_style d n p v) = wf_store d"
  by (rule wf_cong) simp_all

lemma kids_appendChild:
  assumes "wf_store d"
  shows "kids (appendChild d p n) q =
           (if q = p then remove1 n (kids d p) @ [n] else remove1 n (kids d q))"
  by (simp add: appendChild_def Let_def kids_node_remove [OF assms])

lemma wf_appendChild:
  assumes "wf_store d" "p < next_id d" "n < next_id d" "n \<noteq> p"
  shows "wf_store (appendChild d p n)"
proof (rule wf_storeI)
  let ?d = "appendChild d p n"
  note k = kids_appendChild [OF assms(1)]
  have sub: "set (kids ?d q) \<subseteq> insert n (set (kids d q))" for q
    using assms(1) by (auto simp: k wf_distinct)
  have mem: "m \<in> set (kids d q)" if "m \<in> set (kids ?d q)" "m \<noteq> n" for m q
    using that sub by blast
  have only: "q = p" if "n \<in> set (kids ?d q)" for q
    using that assms(1) by (auto simp: k wf_distinct split: if_splits)
  show "m < next_id ?d" if "m \<in> set (kids ?d q)" for q m
  proof (cases "m = n")
    case True
    then show ?thesis using assms(3) by simp
  next
    case False
    then have "m \<in> set (kids d q)" using that by (rule mem [rotated])
    then show ?thesis using assms(1) by (simp add: wf_kid_less)
  qed
  show "kids ?d q = []" if "next_id ?d \<le> q" for q
    using that assms(1,2) by (simp add: k wf_fresh_kids)
  show "q = q'" if "m \<in> set (kids ?d q)" "m \<in> set (kids ?d q')" for q q' m
  proof (cases "m = n")
    case True
    then show ?thesis using that only by blast
  next
    case False
    then have "m \<in> set (kids d q)" "m \<in> set (kids d q')" using that mem by blast+
    with assms(1) show ?thesis by (rule wf_one_parent)
  qed
  show "distinct (kids ?d q)" for q
    using assms(1) by (simp add: k wf_distinct)
  show "q \<notin> set (kids ?d q)" for q
  proof
    assume a: "q \<in> set (kids ?d q)"
    show False
    proof (cases "q = n")
      case True
      then show ?thesis using a only assms(4) by blast
    next
      case False
      then have "q \<in> set (kids d q)" using a mem by blast
      then show ?thesis using assms(1) by (simp add: wf_irrefl)
    qed
  qed
qed

lemma set_ins_before_subset: "set (ins_before n r xs) \<subseteq> insert n (set xs)"
  by (induction xs) auto

lemma set_ins_before_superset: "set xs \<subseteq> set (ins_before n r xs)"
  by (induction xs) auto

lemma distinct_ins_before:
  "distinct xs \<Longrightarrow> n \<notin> set xs \<Longrightarrow> distinct (ins_before n r xs)"
proof (induction xs)
  case Nil
  then show ?case by simp
next
  case (Cons x xs)
  then show ?case using set_ins_before_subset [of n r xs] by auto
qed

lemma insertBefore_wf:
  assumes "wf_store d" "r \<in> set (kids d p)"
  shows "\<exists>d'. insertBefore d p n r = Inr d' \<and> next_id d' = next_id d \<and> info d' = info d \<and>
           style d' = style d \<and>
           (\<forall>q. kids d' q = (if q = p then ins_before n r (remove1 n (kids d p))
                              else remove1 n (kids d q)))"
  using assms(2)
  by (simp add: insertBefore_def Let_def kids_node_remove [OF assms(1)])

lemma wf_insertBefore:
  assumes "wf_store d" "r \<in> set (kids d p)" "n < next_id d" "n \<noteq> p"
    and "insertBefore d p n r = Inr d'"
  shows "wf_store d'"
proof (rule wf_storeI)
  from insertBefore_wf [OF assms(1,2), of n] assms(5)
  have nx: "next_id d' = next_id d"
    and k: "\<And>q. kids d' q = (if q = p then ins_before n r (remove1 n (kids d p))
                              else remove1 n (kids d q))"
    by auto
  have sub: "set (kids d' q) \<subseteq> insert n (set (kids d q))" for q
    using assms(1) set_ins_before_subset [of n r "remove1 n (kids d p)"]
    by (auto simp: k wf_distinct)
  have mem: "m \<in> set (kids d q)" if "m \<in> set (kids d' q)" "m \<noteq> n" for m q
    using that sub by blast
  have only: "q = p" if "n \<in> set (kids d' q)" for q
    using that assms(1) by (auto simp: k wf_distinct split: if_splits)
  have pl: "p < next_id d" using assms(1,2) by (rule wf_parent_less)
  show "m < next_id d'" if "m \<in> set (kids d' q)" for q m
  proof (cases "m = n")
    case True
    then show ?thesis using assms(3) nx by simp
  next
    case False
    then have "m \<in> set (kids d q)" using that by (rule mem [rotated])
    then show ?thesis using assms(1) nx by (simp add: wf_kid_less)
  qed
  show "kids d' q = []" if "next_id d' \<le> q" for q
    using that assms(1) pl nx by (simp add: k wf_fresh_kids)
  show "q = q'" if "m \<in> set (kids d' q)" "m \<in> set (kids d' q')" for q q' m
  proof (cases "m = n")
    case True
    then show ?thesis using that only by blast
  next
    case False
    then have "m \<in> set (kids d q)" "m \<in> set (kids d q')" using that mem by blast+
    with assms(1) show ?thesis by (rule wf_one_parent)
  qed
  show "distinct (kids d' q)" for q
    using assms(1) by (simp add: k wf_distinct distinct_ins_before)
  show "q \<notin> set (kids d' q)" for q
  proof
    assume a: "q \<in> set (kids d' q)"
    show False
    proof (cases "q = n")
      case True
      then show ?thesis using a only assms(4) by blast
    next
      case False
      then have "q \<in> set (kids d q)" using a mem by blast
      then show ?thesis using assms(1) by (simp add: wf_irrefl)
    qed
  qed
qed

lemma cleanup_wrapper_total: "\<exists>d'. cleanup_wrapper d w = Inr d'"
proof (cases "parentNode d w \<noteq> None \<and> firstChild d w \<noteq> None")
  case False
  then show ?thesis by (auto simp: cleanup_wrapper_def)
next
  case True
  then obtain p c where pc: "parentNode d w = Some p" "firstChild d w = Some c" by auto
  then obtain d1 where "insertBefore d p c w = Inr d1"
    using insertBefore_at_parent by blast
  with pc show ?thesis by (simp add: cleanup_wrapper_def unwrap_def)
qed

lemma cleanup_wrappers_total: "\<exists>d'. forEach cleanup_wrapper d ws = Inr d'"
proof -
  have "\<exists>d'. forEach cleanup_wrapper d ws = Inr d' \<and> True"
    by (rule forEach_rule [where I = "\<lambda>_ _. True"]) (simp_all add: cleanup_wrapper_total)
  then show ?thesis by simp
qed

lemma remove1_ins_before:
  "distinct ks \<Longrightarrow> c \<notin> set ks \<Longrightarrow> c \<noteq> w \<Longrightarrow>
     remove1 w (ins_before c w ks) = map (\<lambda>x. if x = w then c else x) ks"
proof (induction ks)
  case Nil
  then show ?case by simp
next
  case (Cons x xs)
  show ?case
  proof (cases "x = w")
    case True
    with Cons.prems have "w \<notin> set xs" by simp
    then have "map (\<lambda>x. if x = w then c else x) xs = xs" by (induction xs) auto
    with True Cons.prems show ?thesis by simp
  next
    case False
    with Cons show ?thesis by simp
  qed
qed

lemma unwrap_wf:
  assumes wf: "wf_store d" and p: "parentNode d w = Some p" and c: "firstChild d w = Some c"
    and cp: "c \<noteq> p"
  shows "\<exists>d'. unwrap d w = Inr d' \<and>
            kids d' p = map (\<lambda>x. if x = w then c else x) (kids d p) \<and>
            kids d' w = tl (kids d w) \<and>
            (\<forall>q. q \<noteq> p \<and> q \<noteq> w \<longrightarrow> kids d' q = kids d q) \<and>
            parentNode d' w = None \<and> parentNode d' c = Some p \<and>
            info d' = info d \<and> wf_store d'"
proof -
  have wp: "w \<in> set (kids d p)" using p by (simp add: parentNode_SomeD)
  obtain rest where kw: "kids d w = c # rest"
    using c by (auto simp: firstChild_def split: list.splits)
  then have cw: "c \<in> set (kids d w)" by simp
  have pw: "p \<noteq> w" using wf wp wf_irrefl by blast
  have c_only: "c \<notin> set (kids d q)" if "q \<noteq> w" for q
    using that wf cw wf_one_parent by blast
  have w_only: "w \<notin> set (kids d q)" if "q \<noteq> p" for q
    using that wf wp wf_one_parent by blast
  have cneqw: "c \<noteq> w" using wf cw wf_irrefl by blast
  have cl: "c < next_id d" using wf cw by (rule wf_kid_less)
  obtain d1 where d1: "insertBefore d p c w = Inr d1" "next_id d1 = next_id d"
    "info d1 = info d"
    and k1: "\<And>q. kids d1 q = (if q = p then ins_before c w (remove1 c (kids d p))
                              else remove1 c (kids d q))"
    using insertBefore_wf [OF wf wp, of c] by blast
  have wf1: "wf_store d1" using wf wp cl cp d1(1) by (rule wf_insertBefore)
  let ?d' = "node_remove d1 w"
  have wf': "wf_store ?d'" using wf1 by (rule wf_node_remove)
  have k': "kids ?d' q = remove1 w (kids d1 q)" for q
    using wf1 by (rule kids_node_remove)
  have kp: "kids ?d' p = map (\<lambda>x. if x = w then c else x) (kids d p)"
    using wf pw c_only [of p] cneqw
    by (simp add: k' k1 remove1_idem remove1_ins_before wf_distinct)
  have kwr: "kids ?d' w = tl (kids d w)"
    using pw kw wf wf_irrefl [of d w] by (simp add: k' k1 remove1_idem)
  have ko: "kids ?d' q = kids d q" if "q \<noteq> p \<and> q \<noteq> w" for q
    using that c_only [of q] w_only [of q] by (simp add: k' k1 remove1_idem)
  have "\<forall>q. w \<notin> set (kids ?d' q)" using wf1 by (simp add: k' wf_distinct)
  then have pn: "parentNode ?d' w = None" using wf' by (simp add: wf_parentNode_None)
  have "c \<in> set (kids ?d' p)" using wp by (simp add: kp)
  then have pc: "parentNode ?d' c = Some p" using wf' by (simp add: wf_parentNode)
  have "unwrap d w = Inr ?d'" using p c d1(1) by (simp add: unwrap_def)
  with kp kwr ko pn pc wf' d1(3) show ?thesis by auto
qed

lemma wf_wrapped_doc: "wf_store wrapped_doc"
  by (rule wf_storeI) (auto simp: wrapped_doc_def split: if_splits)

section \<open>Targets without lines\<close>

lemma process_element_no_lines:
  assumes "\<forall>d e. seg d e = []"
  shows "process_element cfg seg s e =
           Inr (s\<lparr>doc := snd (SplitText_create seg (doc s) e),
                  splitRef := splitRef s @ [fst (SplitText_create seg (doc s) e)]\<rparr>)"
  using assms by (simp add: process_element_def SplitText_create_def Let_def)

lemma split_no_lines:
  assumes "\<forall>d e. seg d e = []"
  shows "snd (SplitText_create seg d e) = d\<lparr>kids := (kids d)(e := [])\<rparr>"
  using assms by (simp add: SplitText_create_def)

lemma splits_no_lines_keep:
  assumes "\<forall>d e. seg d e = []"
  shows "style (foldl (\<lambda>d e. snd (SplitText_create seg d e)) d es) = style d \<and>
         info (foldl (\<lambda>d e. snd (SplitText_create seg d e)) d es) = info d \<and>
         next_id (foldl (\<lambda>d e. snd (SplitText_create seg d e)) d es) = next_id d"
  by (induction es arbitrary: d) (simp_all add: split_no_lines [OF assms])

lemma process_elements_no_lines:
  assumes "\<forall>d e. seg d e = []"
  shows "\<exists>s'. forEach (process_element cfg seg) s es = Inr s' \<and>
           lines s' = lines s \<and> blocks s' = blocks s \<and> same_engine s s' \<and>
           doc s' = foldl (\<lambda>d e. snd (SplitText_create seg d e)) (doc s) es"
proof (induction es arbitrary: s)
  case Nil
  show ?case by (simp add: same_engine_def)
next
  case (Cons e es)
  let ?s1 = "s\<lparr>doc := snd (SplitText_create seg (doc s) e),
                  splitRef := splitRef s @ [fst (SplitText_create seg (doc s) e)]\<rparr>"
  obtain s' where "forEach (process_element cfg seg) ?s1 es = Inr s'"
    "lines s' = lines ?s1" "blocks s' = blocks ?s1" "same_engine ?s1 s'"
    "doc s' = foldl (\<lambda>d e. snd (SplitText_create seg d e)) (doc ?s1) es"
    using Cons.IH by blast
  moreover have "forEach (process_element cfg seg) s (e # es) =
      forEach (process_element cfg seg) ?s1 es"
    by (simp add: process_element_no_lines [OF assms])
  ultimately show ?case by (auto simp: same_engine_def)
qed

section \<open>Wrapping a line\<close>

lemma fresh_not_kid: "wf_store d \<Longrightarrow> next_id d \<le> n \<Longrightarrow> n \<notin> set (kids d q)"
  using wf_kid_less [of d n q] by auto

lemma process_line_wf:
  assumes wf: "wf_store (doc s)" and l: "l \<in> set (kids (doc s) e)"
  shows "\<exists>d'. process_line cfg s l =
              Inr (s\<lparr>doc := d', lines := lines s @ [l],
                     blocks := blocks s @ [Suc (next_id (doc s))]\<rparr>) \<and>
            wf_store d' \<and> next_id d' = Suc (Suc (next_id (doc s))) \<and>
            (\<forall>q. kids d' q =
                   (if q = e then remove1 l (ins_before (next_id (doc s)) l (kids (doc s) e))
                    else if q = next_id (doc s) then [l, Suc (next_id (doc s))]
                    else kids (doc s) q)) \<and>
            (\<forall>m. info d' m =
                   (if m = next_id (doc s) then Element ''div'' [''block-line-wrapper''] []
                    else if m = Suc (next_id (doc s)) then Element ''div'' [''block-revealer''] []
                    else info (doc s) m))"
proof -
  let ?d = "doc s" and ?n = "next_id (doc s)"
  let ?d2 = "set_className (snd (createElement ?d ''div'')) ?n [''block-line-wrapper'']"
  have ln: "l < ?n" using wf l by (rule wf_kid_less)
  have en: "e < ?n" using wf l by (rule wf_parent_less)
  have wf2: "wf_store ?d2" using wf by (simp add: wf_createElement)
  have k2: "kids ?d2 = kids ?d" using wf by (simp add: kids_createElement del: snd_createElement)
  have l2: "l \<in> set (kids ?d2 e)" using l by (simp only: k2)
  have p2: "parentNode ?d2 l = Some e" using wf2 l2 by (simp only: wf_parentNode)
  obtain d3 where d3: "insertBefore ?d2 e ?n l = Inr d3" "next_id d3 = next_id ?d2"
    "info d3 = info ?d2" "style d3 = style ?d2"
    and k3raw: "\<And>q. kids d3 q = (if q = e then ins_before ?n l (remove1 ?n (kids ?d2 e))
                              else remove1 ?n (kids ?d2 q))"
    using insertBefore_wf [OF wf2 l2, of ?n] by blast
  have nofresh: "remove1 ?n (kids ?d q) = kids ?d q" for q
    using fresh_not_kid [OF wf, of ?n q] by (simp add: remove1_idem)
  have k3: "kids d3 q = (if q = e then ins_before ?n l (kids ?d e) else kids ?d q)" for q
    by (simp only: k3raw k2 nofresh)
  have wf3: "wf_store d3"
    using wf2 l2 _ _ d3(1) by (rule wf_insertBefore) (use en in simp_all)
  have n3: "next_id d3 = Suc ?n" using d3(2) by simp
  define d4 where "d4 = appendChild d3 ?n l"
  have wf4: "wf_store d4"
    unfolding d4_def using wf3 by (rule wf_appendChild) (use n3 ln in simp_all)
  have l_only: "l \<notin> set (kids ?d q)" if "q \<noteq> e" for q
    using that wf l wf_one_parent by blast
  have kn: "kids ?d ?n = []" using wf by (simp add: wf_fresh_kids)
  have k4: "kids d4 q = (if q = e then remove1 l (ins_before ?n l (kids ?d e))
                          else if q = ?n then [l] else kids ?d q)" for q
  proof -
    have "kids d4 q = (if q = ?n then remove1 l (kids d3 ?n) @ [l] else remove1 l (kids d3 q))"
      unfolding d4_def by (rule kids_appendChild [OF wf3])
    also have "\<dots> = (if q = e then remove1 l (ins_before ?n l (kids ?d e))
                          else if q = ?n then [l] else kids ?d q)"
      using en l_only [of q] kn by (simp add: k3 remove1_idem)
    finally show ?thesis .
  qed
  have n4: "next_id d4 = Suc ?n" unfolding d4_def using n3 by simp
  have i4: "info d4 = info ?d2" unfolding d4_def using d3(3) by simp
  define d7 where "d7 = set_style (set_className (snd (createElement d4 ''div'')) (Suc ?n)
                 [''block-revealer'']) (Suc ?n) ''backgroundColor'' (Str (blockColor cfg))"
  have wf7: "wf_store d7" unfolding d7_def using wf4 by (simp add: wf_createElement)
  have k7: "kids d7 = kids d4"
    unfolding d7_def using wf4 kids_createElement [of d4 "''div''"] by simp
  have n7: "next_id d7 = Suc (Suc ?n)" unfolding d7_def using n4 by simp
  have i7: "info d7 m = (if m = Suc ?n then Element ''div'' [''block-revealer''] []
                         else info ?d2 m)" for m
    unfolding d7_def using n4 i4 by (simp add: set_className_def)
  define d8 where "d8 = appendChild d7 ?n (Suc ?n)"
  have wf8: "wf_store d8"
    unfolding d8_def using wf7 by (rule wf_appendChild) (use n7 in simp_all)
  have nofresh4: "remove1 (Suc ?n) (kids d4 q) = kids d4 q" for q
    using fresh_not_kid [OF wf4, of "Suc ?n" q] n4 by (simp add: remove1_idem)
  have k8: "kids d8 q = (if q = e then remove1 l (ins_before ?n l (kids ?d e))
                          else if q = ?n then [l, Suc ?n] else kids ?d q)" for q
  proof -
    have "kids d8 q = (if q = ?n then remove1 (Suc ?n) (kids d7 ?n) @ [Suc ?n]
                       else remove1 (Suc ?n) (kids d7 q))"
      unfolding d8_def by (rule kids_appendChild [OF wf7])
    also have "\<dots> = (if q = ?n then kids d4 ?n @ [Suc ?n] else kids d4 q)"
      by (simp only: k7 nofresh4)
    also have "\<dots> = (if q = e then remove1 l (ins_before ?n l (kids ?d e))
                          else if q = ?n then [l, Suc ?n] else kids ?d q)"
      using en by (simp add: k4)
    finally show ?thesis .
  qed
  have i8: "info d8 m =
                   (if m = ?n then Element ''div'' [''block-line-wrapper''] []
                    else if m = Suc ?n then Element ''div'' [''block-revealer''] []
                    else info ?d m)" for m
    unfolding d8_def by (simp add: i7 set_className_def)
  have n8: "next_id d8 = Suc (Suc ?n)" unfolding d8_def using n7 by simp
  have "process_line cfg s l =
          Inr (s\<lparr>doc := d8, lines := lines s @ [l], blocks := blocks s @ [Suc ?n]\<rparr>)"
    using p2 d3(1) n3 by (simp add: process_line_def Let_def split_beta d8_def d7_def d4_def)
  with wf8 n8 k8 i8 show ?thesis by blast
qed

section \<open>Segmenting a target\<close>

lemma make_line_fields:
  "fst (make_line d k txt) = next_id d"
  "next_id (snd (make_line d k txt)) = Suc (Suc (next_id d))"
  "kids (snd (make_line d k txt)) q =
     (if q = next_id d then [Suc (next_id d)]
      else if q = Suc (next_id d) then [] else kids d q)"
  "info (snd (make_line d k txt)) m =
     (if m = next_id d then Element ''div'' [''block-line'' @ string_of_nat k] []
      else if m = Suc (next_id d) then TextNode txt else info d m)"
  by (simp_all add: make_line_def createElement_def createTextNode_def set_className_def
      Let_def)

lemma wf_make_line:
  assumes "wf_store d"
  shows "wf_store (snd (make_line d k txt))"
proof (rule wf_storeI)
  let ?d = "snd (make_line d k txt)" and ?n = "next_id d"
  note f = make_line_fields
  have old: "x \<in> set (kids d q) \<and> q \<noteq> ?n \<and> q \<noteq> Suc ?n \<or> q = ?n \<and> x = Suc ?n"
    if "x \<in> set (kids ?d q)" for x q
    using that by (simp add: f split: if_splits)
  show "m < next_id ?d" if "m \<in> set (kids ?d p)" for p m
    using old [OF that] wf_kid_less [OF assms, of m p] by (auto simp: f)
  show "kids ?d p = []" if "next_id ?d \<le> p" for p
    using that assms by (simp add: f wf_fresh_kids)
  show "p = q" if "m \<in> set (kids ?d p)" "m \<in> set (kids ?d q)" for p q m
    using old [OF that(1)] old [OF that(2)] wf_one_parent [OF assms, of m p q]
      wf_kid_less [OF assms, of m]
    by auto
  show "distinct (kids ?d p)" for p using assms by (simp add: f wf_distinct)
  show "p \<notin> set (kids ?d p)" for p
    using old [of p p] wf_irrefl [OF assms, of p] by auto
qed

lemma make_lines_wf:
  assumes "wf_store d"
  shows "wf_store (snd (make_lines d k txts)) \<and>
         next_id d \<le> next_id (snd (make_lines d k txts)) \<and>
         (\<forall>m<next_id d. kids (snd (make_lines d k txts)) m = kids d m \<and>
                         info (snd (make_lines d k txts)) m = info d m) \<and>
         distinct (fst (make_lines d k txts)) \<and>
         (\<forall>l\<in>set (fst (make_lines d k txts)).
            next_id d \<le> l \<and> l < next_id (snd (make_lines d k txts))) \<and>
         (\<forall>q x. x \<in> set (kids (snd (make_lines d k txts)) q) \<longrightarrow>
            x \<in> set (kids d q) \<or>
            next_id d \<le> x \<and> x \<notin> set (fst (make_lines d k txts)))"
  using assms
proof (induction txts arbitrary: d k)
  case Nil
  then show ?case by simp
next
  case (Cons t ts)
  let ?n = "next_id d"
  let ?d1 = "snd (make_line d k t)"
  let ?ls = "fst (make_lines ?d1 (Suc k) ts)" and ?d2 = "snd (make_lines ?d1 (Suc k) ts)"
  note f = make_line_fields
  have wf1: "wf_store ?d1" using Cons.prems by (rule wf_make_line)
  note ih = Cons.IH [OF wf1, of "Suc k"]
  have r: "fst (make_lines d k (t # ts)) = ?n # ?ls"
    "snd (make_lines d k (t # ts)) = ?d2"
    by (simp_all add: split_beta Let_def f)
  have a: "wf_store ?d2" using ih by blast
  have b': "Suc (Suc ?n) \<le> next_id ?d2" using ih by (simp add: f)
  then have b: "?n \<le> next_id ?d2" by simp
  have c: "kids ?d2 m = kids d m \<and> info ?d2 m = info d m" if "m < ?n" for m
  proof -
    from that have "m < next_id ?d1" by (simp add: f)
    with ih have "kids ?d2 m = kids ?d1 m \<and> info ?d2 m = info ?d1 m" by blast
    with that show ?thesis by (simp add: f)
  qed
  have ge: "next_id ?d1 \<le> l \<and> l < next_id ?d2" if "l \<in> set ?ls" for l
    using that ih by blast
  have d: "distinct (?n # ?ls)"
  proof -
    have "?n \<notin> set ?ls" using ge [of ?n] by (auto simp: f)
    moreover have "distinct ?ls" using ih by blast
    ultimately show ?thesis by simp
  qed
  have e: "?n \<le> l \<and> l < next_id ?d2" if "l \<in> set (?n # ?ls)" for l
    using that ge [of l] b' by (auto simp: f)
  have g: "x \<in> set (kids d q) \<or> ?n \<le> x \<and> x \<notin> set (?n # ?ls)"
    if x: "x \<in> set (kids ?d2 q)" for q x
  proof -
    from ih x have "x \<in> set (kids ?d1 q) \<or> next_id ?d1 \<le> x \<and> x \<notin> set ?ls" by blast
    then show ?thesis
    proof
      assume "x \<in> set (kids ?d1 q)"
      then have "x \<in> set (kids d q) \<or> x = Suc ?n" by (simp add: f split: if_splits)
      then show ?thesis using ge [of "Suc ?n"] by (auto simp: f)
    next
      assume "next_id ?d1 \<le> x \<and> x \<notin> set ?ls"
      then show ?thesis by (simp add: f)
    qed
  qed
  from a b c d e g show ?case unfolding r by blast
qed

lemma SplitText_create_fields:
  "fst (SplitText_create seg d e) =
     \<lparr>split_element = e, split_original = kids d e,
      split_lines = fst (make_lines d 1 (seg d e))\<rparr>"
  "next_id (snd (SplitText_create seg d e)) = next_id (snd (make_lines d 1 (seg d e)))"
  "info (snd (SplitText_create seg d e)) = info (snd (make_lines d 1 (seg d e)))"
  "kids (snd (SplitText_create seg d e)) q =
     (if q = e then fst (make_lines d 1 (seg d e))
      else kids (snd (make_lines d 1 (seg d e))) q)"
  by (simp_all add: SplitText_create_def split_beta)

lemma SplitText_create_wf:
  assumes wf: "wf_store d" and e: "e < next_id d"
  shows "wf_store (snd (SplitText_create seg d e))"
proof (rule wf_storeI)
  let ?ls = "fst (make_lines d 1 (seg d e))" and ?d1 = "snd (make_lines d 1 (seg d e))"
  let ?d = "snd (SplitText_create seg d e)"
  note f = SplitText_create_fields
  note m = make_lines_wf [OF wf, of 1 "seg d e"]
  have wf1: "wf_store ?d1" using m by blast
  have fresh: "l \<notin> set (kids ?d1 q)" if "l \<in> set ?ls" for l q
  proof
    assume "l \<in> set (kids ?d1 q)"
    with m have "l \<in> set (kids d q) \<or> next_id d \<le> l \<and> l \<notin> set ?ls" by blast
    moreover have "next_id d \<le> l" using m that by blast
    ultimately show False using that wf_kid_less [OF wf, of l q] by auto
  qed
  have el: "e < next_id ?d1" using m e by auto
  show "x < next_id ?d" if "x \<in> set (kids ?d q)" for q x
    using that m wf_kid_less [OF wf1, of x q] by (auto simp: f split: if_splits)
  show "kids ?d q = []" if "next_id ?d \<le> q" for q
    using that el wf1 by (auto simp: f wf_fresh_kids)
  show "p = q" if "x \<in> set (kids ?d p)" "x \<in> set (kids ?d q)" for p q x
    using that fresh [of x] wf_one_parent [OF wf1, of x p q]
    by (auto simp: f split: if_splits)
  show "distinct (kids ?d q)" for q using m wf1 by (auto simp: f wf_distinct)
  show "q \<notin> set (kids ?d q)" for q
  proof (cases "q = e")
    case True
    have "e \<notin> set ?ls" using m e by auto
    with True show ?thesis by (simp add: f)
  next
    case False
    then show ?thesis using wf1 by (simp add: f wf_irrefl)
  qed
qed

section \<open>The activation, step by step\<close>

lemma act_inv_start:
  "wf_store (doc s) \<Longrightarrow> act_inv s {} [] (s\<lparr>splitRef := [], lines := [], blocks := []\<rparr>)"
  by (simp add: act_inv_def)

lemma act_inv_line:
  assumes inv: "act_inv s0 P (l # r) s" and e: "e \<in> P"
    and sub: "set (l # r) \<subseteq> set (kids (doc s) e)"
  shows "\<exists>s'. process_line cfg s l = Inr s' \<and> act_inv s0 P r s' \<and>
              set r \<subseteq> set (kids (doc s') e)"
proof -
  let ?n = "next_id (doc s)" and ?o = "next_id (doc s0)"
  from inv have wf: "wf_store (doc s)" and n0: "?o \<le> ?n"
    and Pl: "\<forall>e\<in>P. e < ?o"
    and inf: "\<forall>m<?o. info (doc s) m = info (doc s0) m"
    and kid: "\<forall>m<?o. m \<notin> P \<longrightarrow> kids (doc s) m = kids (doc s0) m"
    and spl: "split_element ` set (splitRef s) = P"
      "\<forall>sp\<in>set (splitRef s). split_original sp = kids (doc s0) (split_element sp)"
    and lin: "lines s @ l # r = concat (map split_lines (splitRef s))"
    and len: "length (blocks s) = length (lines s)"
    and dis: "distinct (lines s @ l # r)"
    and wr: "\<forall>i<length (lines s).
        \<exists>w\<ge>?o.
          kids (doc s) w = [lines s ! i, blocks s ! i] \<and>
          info (doc s) w = Element ''div'' [''block-line-wrapper''] [] \<and>
          info (doc s) (blocks s ! i) = Element ''div'' [''block-revealer''] []"
    unfolding act_inv_def by blast+
  from sub have le: "l \<in> set (kids (doc s) e)" by simp
  obtain d' where d': "process_line cfg s l =
              Inr (s\<lparr>doc := d', lines := lines s @ [l], blocks := blocks s @ [Suc ?n]\<rparr>)"
    "wf_store d'" "next_id d' = Suc (Suc ?n)"
    and k': "\<And>q. kids d' q =
                   (if q = e then remove1 l (ins_before ?n l (kids (doc s) e))
                    else if q = ?n then [l, Suc ?n]
                    else kids (doc s) q)"
    and i': "\<And>m. info d' m =
                   (if m = ?n then Element ''div'' [''block-line-wrapper''] []
                    else if m = Suc ?n then Element ''div'' [''block-revealer''] []
                    else info (doc s) m)"
    using process_line_wf [OF wf le, of cfg] by blast
  let ?s' = "s\<lparr>doc := d', lines := lines s @ [l], blocks := blocks s @ [Suc ?n]\<rparr>"
  have en0: "e < ?o" using Pl e by blast
  have a1: "\<forall>m<?o. info (doc ?s') m = info (doc s0) m"
    using inf n0 by (simp add: i')
  have a2: "\<forall>m<?o. m \<notin> P \<longrightarrow> kids (doc ?s') m = kids (doc s0) m"
    using kid n0 e by (auto simp: k')
  have a3: "\<exists>w\<ge>?o.
          kids (doc ?s') w = [lines ?s' ! i, blocks ?s' ! i] \<and>
          info (doc ?s') w = Element ''div'' [''block-line-wrapper''] [] \<and>
          info (doc ?s') (blocks ?s' ! i) = Element ''div'' [''block-revealer''] []"
    if i: "i < length (lines ?s')" for i
  proof (cases "i < length (lines s)")
    case True
    with wr obtain w where w: "?o \<le> w" "kids (doc s) w = [lines s ! i, blocks s ! i]"
      "info (doc s) w = Element ''div'' [''block-line-wrapper''] []"
      "info (doc s) (blocks s ! i) = Element ''div'' [''block-revealer''] []"
      by blast
    have we: "w \<noteq> e" using w(1) en0 by simp
    have wn: "w < ?n"
    proof (rule ccontr)
      assume "\<not> w < ?n"
      then have "kids (doc s) w = []" using wf by (simp add: wf_fresh_kids)
      with w(2) show False by simp
    qed
    have "blocks s ! i \<in> set (kids (doc s) w)" using w(2) by simp
    then have bn: "blocks s ! i < ?n" using wf wf_kid_less by blast
    show ?thesis
      using True len w we wn bn by (intro exI [of _ w]) (simp add: k' i' nth_append)
  next
    case False
    with i have il: "i = length (lines s)" by simp
    have "?n \<noteq> e" using en0 n0 by simp
    then show ?thesis
      using il len n0 by (intro exI [of _ ?n]) (simp add: k' i' nth_append)
  qed
  have a4: "set r \<subseteq> set (kids (doc ?s') e)"
  proof
    fix x assume x: "x \<in> set r"
    then have "x \<noteq> l" using dis by auto
    moreover have "x \<in> set (kids (doc s) e)" using sub x by auto
    then have "x \<in> set (ins_before ?n l (kids (doc s) e))"
      using set_ins_before_superset by blast
    ultimately show "x \<in> set (kids (doc ?s') e)" by (simp add: k')
  qed
  have "act_inv s0 P r ?s'"
    unfolding act_inv_def
    using d'(2,3) n0 Pl a1 a2 spl lin len dis a3 by simp
  with d'(1) a4 show ?thesis by (intro exI [of _ ?s']) simp
qed

lemma act_inv_lines:
  assumes "act_inv s0 P r s" "e \<in> P" "set r \<subseteq> set (kids (doc s) e)"
  shows "\<exists>s'. forEach (process_line cfg) s r = Inr s' \<and> act_inv s0 P [] s'"
proof -
  have "\<exists>s'. forEach (process_line cfg) s r = Inr s' \<and>
             (act_inv s0 P [] s' \<and> set [] \<subseteq> set (kids (doc s') e))"
  proof (rule forEach_rule
      [where I = "\<lambda>s r. act_inv s0 P r s \<and> set r \<subseteq> set (kids (doc s) e)"])
    show "act_inv s0 P r s \<and> set r \<subseteq> set (kids (doc s) e)" using assms by simp
  next
    fix s1 :: state and x and r1 :: "node_id list"
    assume "act_inv s0 P (x # r1) s1 \<and> set (x # r1) \<subseteq> set (kids (doc s1) e)"
    then show "\<exists>s'. process_line cfg s1 x = Inr s' \<and>
                (act_inv s0 P r1 s' \<and> set r1 \<subseteq> set (kids (doc s') e))"
      using act_inv_line [OF _ assms(2), of s0 x r1 s1 cfg] by blast
  qed
  then show ?thesis by blast
qed

lemma act_inv_split:
  assumes inv: "act_inv s0 P [] s" and e: "e < next_id (doc s0)" "e \<notin> P"
  shows "act_inv s0 (insert e P) (split_lines (fst (SplitText_create seg (doc s) e)))
           (s\<lparr>doc := snd (SplitText_create seg (doc s) e),
              splitRef := splitRef s @ [fst (SplitText_create seg (doc s) e)]\<rparr>)"
proof -
  let ?n = "next_id (doc s)" and ?o = "next_id (doc s0)"
  let ?ls = "fst (make_lines (doc s) 1 (seg (doc s) e))"
  let ?d1 = "snd (make_lines (doc s) 1 (seg (doc s) e))"
  let ?d = "snd (SplitText_create seg (doc s) e)" and ?sp = "fst (SplitText_create seg (doc s) e)"
  let ?s' = "s\<lparr>doc := ?d, splitRef := splitRef s @ [?sp]\<rparr>"
  note f = SplitText_create_fields
  from inv have wf: "wf_store (doc s)" and n0: "?o \<le> ?n"
    and Pl: "\<forall>e\<in>P. e < ?o"
    and inf: "\<forall>m<?o. info (doc s) m = info (doc s0) m"
    and kid: "\<forall>m<?o. m \<notin> P \<longrightarrow> kids (doc s) m = kids (doc s0) m"
    and spl: "split_element ` set (splitRef s) = P"
      "\<forall>sp\<in>set (splitRef s). split_original sp = kids (doc s0) (split_element sp)"
    and lin0: "lines s @ [] = concat (map split_lines (splitRef s))"
    and len: "length (blocks s) = length (lines s)"
    and dis0: "distinct (lines s @ [])"
    and wr: "\<forall>i<length (lines s).
        \<exists>w\<ge>?o.
          kids (doc s) w = [lines s ! i, blocks s ! i] \<and>
          info (doc s) w = Element ''div'' [''block-line-wrapper''] [] \<and>
          info (doc s) (blocks s ! i) = Element ''div'' [''block-revealer''] []"
    unfolding act_inv_def by blast+
  from lin0 have lin: "concat (map split_lines (splitRef s)) = lines s" by simp
  from dis0 have dis: "distinct (lines s)" by simp
  note m = make_lines_wf [OF wf, of 1 "seg (doc s) e"]
  have en: "e < ?n" using e(1) n0 by simp
  have b1: "wf_store ?d" using wf en by (rule SplitText_create_wf)
  have b2: "?o \<le> next_id ?d" using m n0 by (simp add: f)
  have b3: "\<forall>m<?o. info (doc ?s') m = info (doc s0) m"
    using m inf n0 by (simp add: f)
  have b4: "\<forall>m<?o. m \<notin> insert e P \<longrightarrow> kids (doc ?s') m = kids (doc s0) m"
    using m kid n0 by (simp add: f)
  have b5: "split_element ` set (splitRef ?s') = insert e P"
    using spl(1) by (simp add: f)
  have "kids (doc s) e = kids (doc s0) e" using kid e by simp
  then have b6: "\<forall>sp\<in>set (splitRef ?s'). split_original sp = kids (doc s0) (split_element sp)"
    using spl(2) by (simp add: f)
  have b7: "lines ?s' @ split_lines ?sp = concat (map split_lines (splitRef ?s'))"
    by (simp add: f lin)
  have old: "x < ?n" if "x \<in> set (lines s)" for x
  proof -
    from that obtain i where i: "i < length (lines s)" "lines s ! i = x"
      by (auto simp: in_set_conv_nth)
    with wr obtain w where "kids (doc s) w = [lines s ! i, blocks s ! i]" by blast
    with i have "x \<in> set (kids (doc s) w)" by simp
    then show ?thesis using wf wf_kid_less by blast
  qed
  have b8: "distinct (lines ?s' @ split_lines ?sp)"
  proof -
    have "set (lines s) \<inter> set ?ls = {}"
    proof (rule ccontr)
      assume "set (lines s) \<inter> set ?ls \<noteq> {}"
      then obtain x where x: "x \<in> set (lines s)" "x \<in> set ?ls" by blast
      from x(2) m have "?n \<le> x" by blast
      with old [OF x(1)] show False by simp
    qed
    moreover have "distinct ?ls" using m by blast
    ultimately show ?thesis using dis by (simp add: f)
  qed
  have b9: "\<exists>w\<ge>?o.
          kids (doc ?s') w = [lines ?s' ! i, blocks ?s' ! i] \<and>
          info (doc ?s') w = Element ''div'' [''block-line-wrapper''] [] \<and>
          info (doc ?s') (blocks ?s' ! i) = Element ''div'' [''block-revealer''] []"
    if i: "i < length (lines ?s')" for i
  proof -
    from i wr obtain w where w: "?o \<le> w" "kids (doc s) w = [lines s ! i, blocks s ! i]"
      "info (doc s) w = Element ''div'' [''block-line-wrapper''] []"
      "info (doc s) (blocks s ! i) = Element ''div'' [''block-revealer''] []"
      by auto
    have we: "w \<noteq> e" using w(1) e(1) by simp
    have wn: "w < ?n"
    proof (rule ccontr)
      assume "\<not> w < ?n"
      then have "kids (doc s) w = []" using wf by (simp add: wf_fresh_kids)
      with w(2) show False by simp
    qed
    have "blocks s ! i \<in> set (kids (doc s) w)" using w(2) by simp
    then have bn: "blocks s ! i < ?n" using wf wf_kid_less by blast
    show ?thesis
      using m w we wn bn by (intro exI [of _ w]) (simp add: f)
  qed
  have b10: "\<forall>x\<in>insert e P. x < ?o" using Pl e(1) by simp
  show ?thesis
    unfolding act_inv_def
    using b1 b2 b3 b4 b5 b6 b7 b8 b9 b10 len by simp
qed

lemma act_inv_element:
  assumes inv: "act_inv s0 P [] s" and e: "e < next_id (doc s0)" "e \<notin> P"
  shows "\<exists>s'. process_element cfg seg s e = Inr s' \<and> act_inv s0 (insert e P) [] s'"
proof -
  let ?sp = "fst (SplitText_create seg (doc s) e)"
  let ?s1 = "s\<lparr>doc := snd (SplitText_create seg (doc s) e), splitRef := splitRef s @ [?sp]\<rparr>"
  have "act_inv s0 (insert e P) (split_lines ?sp) ?s1"
    using assms by (rule act_inv_split)
  moreover have "e \<in> insert e P" by simp
  moreover have "set (split_lines ?sp) \<subseteq> set (kids (doc ?s1) e)"
    by (simp add: SplitText_create_fields)
  ultimately have "\<exists>s'. forEach (process_line cfg) ?s1 (split_lines ?sp) = Inr s' \<and>
      act_inv s0 (insert e P) [] s'"
    by (rule act_inv_lines)
  then show ?thesis by (simp add: process_element_def Let_def split_beta)
qed

lemma act_inv_elements:
  assumes "act_inv s0 P [] s" "distinct es" "\<forall>e\<in>set es. e < next_id (doc s0) \<and> e \<notin> P"
  shows "\<exists>s'. forEach (process_element cfg seg) s es = Inr s' \<and> act_inv s0 (P \<union> set es) [] s'"
  using assms
proof (induction es arbitrary: s P)
  case Nil
  then show ?case by simp
next
  case (Cons e es)
  from Cons.prems obtain s1 where s1: "process_element cfg seg s e = Inr s1"
    "act_inv s0 (insert e P) [] s1"
    using act_inv_element [of s0 P s e cfg seg] by auto
  have "\<exists>s'. forEach (process_element cfg seg) s1 es = Inr s' \<and>
      act_inv s0 (insert e P \<union> set es) [] s'"
    using s1(2) Cons.prems by (intro Cons.IH) auto
  with s1(1) show ?case by auto
qed

lemma target_elements_ok:
  assumes "wf_store d" "c < next_id d"
  shows "distinct (target_elements d c) \<and> (\<forall>e\<in>set (target_elements d c). e < next_id d)"
  using assms wf_kid_less [OF assms(1), of _ c]
  by (auto simp: target_elements_def children_def wf_distinct)

lemma act_inv_engine:
  assumes "act_inv s0 P r s"
    and "kids (doc s') = kids (doc s)" "info (doc s') = info (doc s)"
    "next_id (doc s') = next_id (doc s)" "lines s' = lines s" "blocks s' = blocks s"
    "splitRef s' = splitRef s"
  shows "act_inv s0 P r s'"
proof -
  have w: "wf_store (doc s') = wf_store (doc s)" using assms(2,4) by (rule wf_cong)
  show ?thesis
    unfolding act_inv_def assms(2-7) w by (rule assms(1) [unfolded act_inv_def])
qed

lemma activate_inv:
  assumes "containerRef s = Some c" "wf_store (doc s)" "c < next_id (doc s)"
  shows "\<exists>s'. activate cfg seg s = Inr s' \<and>
              act_inv s (set (target_elements (doc s) c)) [] s'"
proof -
  let ?s1 = "s\<lparr>splitRef := [], lines := [], blocks := []\<rparr>"
  let ?es = "target_elements (doc s) c"
  have "act_inv s {} [] ?s1" using assms(2) by (rule act_inv_start)
  moreover have "distinct ?es" "\<forall>e\<in>set ?es. e < next_id (doc s) \<and> e \<notin> {}"
    using target_elements_ok [OF assms(2,3)] by simp_all
  ultimately obtain s2 where s2: "forEach (process_element cfg seg) ?s1 ?es = Inr s2"
    "act_inv s ({} \<union> set ?es) [] s2"
    using act_inv_elements [of s "{}" ?s1 ?es cfg seg] by blast
  let ?s' = "schedule cfg (set_initial_state s2)"
  have "activate cfg seg s = Inr ?s'" using assms(1) s2(1) by (simp add: activate_def Let_def)
  moreover have "act_inv s (set ?es) [] s2" using s2(2) by simp
  then have "act_inv s (set ?es) [] ?s'" by (rule act_inv_engine) simp_all
  ultimately show ?thesis by blast
qed

section \<open>Examples in the single-target mode\<close>

lemma activate_timelines_length:
  assumes "containerRef s = Some c" "activate cfg seg s = Inr s'"
  shows "length (timelines s') = length (timelines s) + length (lines s')"
proof -
  obtain s2 where s2: "length (blocks s2) = length (lines s2)" "same_engine s s2"
    "activate cfg seg s = Inr (schedule cfg (set_initial_state s2))"
    using activate_Some [OF assms(1)] by blast
  with assms(2) have "s' = schedule cfg (set_initial_state s2)" by simp
  then show ?thesis
    using s2(1,2) by (simp add: schedule_timelines same_engine_def length_with_index)
qed

lemma wf_example_doc: "wf_store example_doc"
  by (rule wf_storeI) (auto simp: example_doc_def split: if_splits)

lemma wf_plain_doc: "wf_store plain_doc"
  by (rule wf_storeI) (auto simp: plain_doc_def split: if_splits)

lemma plain_targets: "target_elements (doc plain_state) 0 = [0]"
  by (simp add: plain_state_def plain_doc_def target_elements_def hasAttribute_def)

lemma plain_lines:
  assumes "activate cfg example_seg plain_state = Inr s'"
  shows "length (lines s') = 3"
proof -
  have "containerRef plain_state = Some 0" by (simp add: plain_state_def)
  moreover have "\<forall>d e. length (example_seg d e) = 3" by (simp add: example_seg_def)
  ultimately have "length (lines s') = 3 * length (target_elements (doc plain_state) 0)"
    using assms by (rule activate_count)
  then show ?thesis by (simp add: plain_targets)
qed

section \<open>Deactivation after an activation\<close>

lemma revert_fields [simp]:
  "info (revert d sp) = info d" "next_id (revert d sp) = next_id d"
  "style (revert d sp) = style d"
  by (simp_all add: revert_def)

lemma reverts_fields [simp]:
  "info (foldl revert d sps) = info d" "next_id (foldl revert d sps) = next_id d"
  "style (foldl revert d sps) = style d"
  by (induction sps arbitrary: d) simp_all

lemma reverts_kids:
  assumes "\<forall>sp\<in>set sps. split_original sp = K (split_element sp)"
  shows "kids (foldl revert d sps) m =
           (if m \<in> split_element ` set sps then K m else kids d m)"
  using assms
proof (induction sps rule: rev_induct)
  case Nil
  show ?case by simp
next
  case (snoc sp sps)
  then show ?case by (auto simp: revert_def)
qed

lemma descendants_below:
  assumes "wf_store d"
  shows "k \<in> set (descendants f d c) \<Longrightarrow> k < next_id d"
proof (induction f arbitrary: c)
  case 0
  then show ?case by simp
next
  case (Suc f)
  then obtain x where x: "x \<in> set (kids d c)" "k = x \<or> k \<in> set (descendants f d x)"
    by auto
  then show ?case using Suc.IH [of x] wf_kid_less [OF assms, of x c] by auto
qed

lemma descendants_agree:
  assumes "wf_store d" "\<forall>m<next_id d. kids d' m = kids d m"
  shows "c < next_id d \<Longrightarrow> descendants f d' c = descendants f d c"
proof (induction f arbitrary: c)
  case 0
  show ?case by simp
next
  case (Suc f)
  have k: "kids d' c = kids d c" using assms(2) Suc.prems by simp
  have "map (\<lambda>k. k # descendants f d' k) (kids d c) =
        map (\<lambda>k. k # descendants f d k) (kids d c)"
  proof (rule map_cong [OF refl])
    fix x assume "x \<in> set (kids d c)"
    then have "x < next_id d" using assms(1) wf_kid_less by blast
    then show "x # descendants f d' x = x # descendants f d x" by (simp add: Suc.IH)
  qed
  then show ?case by (simp only: descendants.simps k)
qed

lemma cleanup_after_activation:
  assumes inv: "act_inv s P [] s1" and c: "containerRef s1 = Some c" "c < next_id (doc s)"
    and wf: "wf_store (doc s)"
  shows "\<exists>D. (\<forall>m<next_id (doc s). kids D m = kids (doc s) m \<and> info D m = info (doc s) m) \<and>
             next_id D = next_id (doc s1) \<and>
             querySelectorAll D c cls =
               filter (\<lambda>k. has_class (doc s) k cls) (descendants (next_id (doc s1)) (doc s) c) \<and>
             cleanup s1 =
               (case forEach cleanup_wrapper D (querySelectorAll D c ''block-line-wrapper'') of
                  Inl e \<Rightarrow> Inl e | Inr d2 \<Rightarrow> Inr (s1\<lparr>doc := d2\<rparr>))"
proof -
  let ?D = "foldl revert (doc s1) (splitRef s1)"
  from inv have inf: "\<forall>m<next_id (doc s). info (doc s1) m = info (doc s) m"
    and kid: "\<forall>m<next_id (doc s). m \<notin> P \<longrightarrow> kids (doc s1) m = kids (doc s) m"
    and spl: "split_element ` set (splitRef s1) = P"
      "\<forall>sp\<in>set (splitRef s1). split_original sp = kids (doc s) (split_element sp)"
    unfolding act_inv_def by blast+
  have k: "kids ?D m = kids (doc s) m" if "m < next_id (doc s)" for m
    using that kid spl(1) by (simp add: reverts_kids [OF spl(2)])
  have i: "info ?D m = info (doc s) m" if "m < next_id (doc s)" for m
    using that inf by simp
  have d: "descendants f ?D c = descendants f (doc s) c" for f
    using wf _ c(2) by (rule descendants_agree) (simp add: k)
  have q: "querySelectorAll ?D c cls =
      filter (\<lambda>k. has_class (doc s) k cls) (descendants (next_id (doc s1)) (doc s) c)"
    unfolding querySelectorAll_def
  proof (simp add: d, rule filter_cong [OF refl])
    fix x assume "x \<in> set (descendants (next_id (doc s1)) (doc s) c)"
    then have "x < next_id (doc s)" using wf descendants_below by blast
    then show "has_class ?D x cls = has_class (doc s) x cls"
      using inf by (simp add: has_class_def)
  qed
  have "cleanup s1 =
               (case forEach cleanup_wrapper ?D (querySelectorAll ?D c ''block-line-wrapper'') of
                  Inl e \<Rightarrow> Inl e | Inr d2 \<Rightarrow> Inr (s1\<lparr>doc := d2\<rparr>))"
    using c(1) by (simp add: cleanup_def Let_def)
  with k i q show ?thesis by (intro exI [of _ ?D]) simp
qed

lemma activate_containerRef:
  assumes "containerRef s = Some c" "activate cfg seg s = Inr s'"
  shows "containerRef s' = Some c"
proof -
  obtain s2 where s2: "same_engine s s2"
    "activate cfg seg s = Inr (schedule cfg (set_initial_state s2))"
    using activate_Some [OF assms(1)] by blast
  with assms show ?thesis by (auto simp: same_engine_def)
qed

section \<open>The round trip\<close>

lemma wf_clash_doc: "wf_store clash_doc"
  by (rule wf_storeI) (auto simp: clash_doc_def split: if_splits)

lemma find_upt_first: "P 0 \<Longrightarrow> find P [0..<Suc n] = Some 0"
  by (simp add: upt_rec)

lemma find_upt_second: "\<not> P 0 \<Longrightarrow> P 1 \<Longrightarrow> find P [0..<Suc (Suc n)] = Some 1"
  by (simp add: upt_rec)

section \<open>What an activation and a cleanup leave untouched\<close>

lemma process_line_info:
  assumes "process_line cfg s l = Inr s'"
  shows "next_id (doc s) \<le> next_id (doc s') \<and>
         (\<forall>m<next_id (doc s). info (doc s') m = info (doc s) m)"
proof -
  let ?w = "fst (createElement (doc s) ''div'')"
  let ?d2 = "set_className (snd (createElement (doc s) ''div'')) ?w [''block-line-wrapper'']"
  have i2: "\<forall>m<next_id (doc s). info ?d2 m = info (doc s) m"
    by (simp add: set_className_def)
  have "\<exists>d3. (case parentNode ?d2 l of None \<Rightarrow> Inr ?d2
               | Some p \<Rightarrow> insertBefore ?d2 p ?w l) = Inr d3 \<and>
             next_id d3 = Suc (next_id (doc s)) \<and> info d3 = info ?d2"
  proof (cases "parentNode ?d2 l")
    case None
    then show ?thesis by simp
  next
    case (Some p)
    then obtain d3 where "insertBefore ?d2 p ?w l = Inr d3"
      using insertBefore_at_parent by blast
    with Some show ?thesis by (auto dest!: insertBefore_InrD)
  qed
  then obtain d3 where d3: "(case parentNode ?d2 l of None \<Rightarrow> Inr ?d2
               | Some p \<Rightarrow> insertBefore ?d2 p ?w l) = Inr d3"
    "next_id d3 = Suc (next_id (doc s))" "info d3 = info ?d2"
    by blast
  from assms d3(1) have "s' = s\<lparr>doc := appendChild
        (set_style (set_className (snd (createElement (appendChild d3 ?w l) ''div''))
           (fst (createElement (appendChild d3 ?w l) ''div'')) [''block-revealer''])
           (fst (createElement (appendChild d3 ?w l) ''div'')) ''backgroundColor''
           (Str (blockColor cfg)))
        ?w (fst (createElement (appendChild d3 ?w l) ''div'')),
      lines := lines s @ [l],
      blocks := blocks s @ [fst (createElement (appendChild d3 ?w l) ''div'')]\<rparr>"
    by (simp add: process_line_def Let_def split_beta)
  then show ?thesis using d3(2,3) i2 by (simp add: set_className_def)
qed

lemma make_lines_info:
  "next_id d \<le> next_id (snd (make_lines d k ts)) \<and>
   (\<forall>m<next_id d. info (snd (make_lines d k ts)) m = info d m)"
proof (induction ts arbitrary: d k)
  case Nil
  show ?case by simp
next
  case (Cons t ts)
  from Cons.IH [of "snd (make_line d k t)" "Suc k"]
  show ?case by (simp add: split_beta Let_def make_line_fields)
qed

lemma process_lines_info:
  assumes "n \<le> next_id (doc s)"
  shows "\<exists>s'. forEach (process_line cfg) s ls = Inr s' \<and>
           (n \<le> next_id (doc s') \<and> (\<forall>m<n. info (doc s') m = info (doc s) m))"
proof (rule forEach_rule
    [where I = "\<lambda>s1 r. n \<le> next_id (doc s1) \<and> (\<forall>m<n. info (doc s1) m = info (doc s) m)"])
  show "n \<le> next_id (doc s) \<and> (\<forall>m<n. info (doc s) m = info (doc s) m)"
    using assms by simp
next
  fix s1 :: state and x and r :: "node_id list"
  assume a: "n \<le> next_id (doc s1) \<and> (\<forall>m<n. info (doc s1) m = info (doc s) m)"
  obtain s' where s': "process_line cfg s1 x = Inr s'"
    using process_line_basic by blast
  from process_line_info [OF s'] a
  have "n \<le> next_id (doc s') \<and> (\<forall>m<n. info (doc s') m = info (doc s) m)" by auto
  with s' show "\<exists>s'. process_line cfg s1 x = Inr s' \<and>
      (n \<le> next_id (doc s') \<and> (\<forall>m<n. info (doc s') m = info (doc s) m))"
    by blast
qed

lemma process_element_info:
  assumes "n \<le> next_id (doc s)"
  shows "\<exists>s'. process_element cfg seg s e = Inr s' \<and>
           (n \<le> next_id (doc s') \<and> (\<forall>m<n. info (doc s') m = info (doc s) m))"
proof -
  let ?s1 = "s\<lparr>doc := snd (SplitText_create seg (doc s) e),
               splitRef := splitRef s @ [fst (SplitText_create seg (doc s) e)]\<rparr>"
  note m = make_lines_info [of "doc s" 1 "seg (doc s) e"]
  have n1: "n \<le> next_id (doc ?s1)" using assms m by (simp add: SplitText_create_fields)
  have i1: "\<forall>m<n. info (doc ?s1) m = info (doc s) m"
    using assms m by (simp add: SplitText_create_fields)
  obtain s' where "forEach (process_line cfg) ?s1
      (split_lines (fst (SplitText_create seg (doc s) e))) = Inr s'"
    "n \<le> next_id (doc s')" "\<forall>m<n. info (doc s') m = info (doc ?s1) m"
    using process_lines_info [OF n1] by blast
  with i1 show ?thesis by (simp add: process_element_def Let_def split_beta)
qed

lemma process_elements_info:
  assumes "n \<le> next_id (doc s)"
  shows "\<exists>s'. forEach (process_element cfg seg) s es = Inr s' \<and>
           (n \<le> next_id (doc s') \<and> (\<forall>m<n. info (doc s') m = info (doc s) m))"
proof (rule forEach_rule
    [where I = "\<lambda>s1 r. n \<le> next_id (doc s1) \<and> (\<forall>m<n. info (doc s1) m = info (doc s) m)"])
  show "n \<le> next_id (doc s) \<and> (\<forall>m<n. info (doc s) m = info (doc s) m)"
    using assms by simp
next
  fix s1 :: state and x and r :: "node_id list"
  assume a: "n \<le> next_id (doc s1) \<and> (\<forall>m<n. info (doc s1) m = info (doc s) m)"
  then obtain s' where "process_element cfg seg s1 x = Inr s'"
    "n \<le> next_id (doc s')" "\<forall>m<n. info (doc s') m = info (doc s1) m"
    using process_element_info [of n s1 cfg seg x] by blast
  with a show "\<exists>s'. process_element cfg seg s1 x = Inr s' \<and>
      (n \<le> next_id (doc s') \<and> (\<forall>m<n. info (doc s') m = info (doc s) m))"
    by auto
qed

lemma activate_info:
  assumes "activate cfg seg s = Inr s'" "m < next_id (doc s)"
  shows "info (doc s') m = info (doc s) m"
proof (cases "containerRef s")
  case None
  with assms(1) show ?thesis by (simp add: activate_def)
next
  case (Some c)
  let ?s1 = "s\<lparr>splitRef := [], lines := [], blocks := []\<rparr>"
  obtain s2 where s2: "forEach (process_element cfg seg) ?s1 (target_elements (doc s) c) = Inr s2"
    "\<forall>m<next_id (doc s). info (doc s2) m = info (doc ?s1) m"
    using process_elements_info [of "next_id (doc s)" ?s1 cfg seg "target_elements (doc s) c"]
    by auto
  with Some assms(1) have "s' = schedule cfg (set_initial_state s2)"
    by (simp add: activate_def Let_def)
  with s2(2) assms(2) show ?thesis by simp
qed

lemma cleanup_wrapper_info: "cleanup_wrapper d w = Inr d' \<Longrightarrow> info d' = info d"
  by (auto simp: cleanup_wrapper_def unwrap_def split: if_splits option.splits sum.splits
      dest!: insertBefore_InrD)

lemma cleanup_total:
  "\<exists>s2. cleanup s1 = Inr s2 \<and> info (doc s2) = info (doc s1) \<and>
        containerRef s2 = containerRef s1"
proof (cases "containerRef s1")
  case None
  then show ?thesis by (simp add: cleanup_def Let_def)
next
  case (Some c)
  let ?D = "foldl revert (doc s1) (splitRef s1)"
  have "\<exists>d2. forEach cleanup_wrapper ?D (querySelectorAll ?D c ''block-line-wrapper'') = Inr d2 \<and>
          info d2 = info ?D"
  proof (rule forEach_rule [where I = "\<lambda>d r. info d = info ?D"])
    show "info ?D = info ?D" by simp
  next
    fix d :: dom_store and x and r :: "node_id list"
    assume a: "info d = info ?D"
    obtain d' where d': "cleanup_wrapper d x = Inr d'" using cleanup_wrapper_total by blast
    then have "info d' = info d" by (rule cleanup_wrapper_info)
    with a d' show "\<exists>s'. cleanup_wrapper d x = Inr s' \<and> info s' = info ?D" by simp
  qed
  then obtain d2 where
    "forEach cleanup_wrapper ?D (querySelectorAll ?D c ''block-line-wrapper'') = Inr d2"
    "info d2 = info ?D" by blast
  with Some show ?thesis by (simp add: cleanup_def Let_def)
qed

section \<open>The claims\<close>

text \<open>
  C1. For every line with 0-based ordinal index \<open>i\<close>, the timeline constructed for that
  line has the start offset \<open>delay + i + stagger\<close>: the index itself supplies the
  one-second spacing, \<open>stagger\<close> is a flat addend.
\<close>

theorem start_offset:
  assumes "containerRef s = Some c"
  shows "\<exists>s'. activate cfg seg s = Inr s' \<and>
           length (timelines s') = length (timelines s) + length (lines s') \<and>
           (\<forall>i<length (lines s').
              tl_delay (timelines s' ! (length (timelines s) + i)) =
                delay cfg + real i + stagger cfg)"
proof -
  obtain s2 where s2: "length (blocks s2) = length (lines s2)" "same_engine s s2"
    "activate cfg seg s = Inr (schedule cfg (set_initial_state s2))"
    using activate_Some [OF assms] by blast
  let ?s' = "schedule cfg (set_initial_state s2)"
  have "length (timelines ?s') = length (timelines s) + length (lines ?s')"
    using s2 by (simp add: schedule_timelines same_engine_def length_with_index)
  moreover have "\<forall>i<length (lines ?s').
              tl_delay (timelines ?s' ! (length (timelines s) + i)) =
                delay cfg + real i + stagger cfg"
    using s2
    by (simp add: schedule_timelines same_engine_def length_with_index nth_append
        nth_with_index reveal_timeline_def)
  ultimately show ?thesis using s2(3) by blast
qed

theorem start_offset_witness:
  "\<exists>s'. activate example_config example_seg example_state = Inr s' \<and>
        length (lines s') = 3 \<and>
        tl_delay (timelines s' ! 0) = 0.15 \<and>
        tl_delay (timelines s' ! 1) = 1.15 \<and>
        tl_delay (timelines s' ! 2) = 2.15"
proof -
  have c: "containerRef example_state = Some 0" by (simp add: example_state_def)
  from start_offset [OF c, of example_config example_seg]
  obtain s' where s': "activate example_config example_seg example_state = Inr s'"
    and d: "\<forall>i<length (lines s').
              tl_delay (timelines s' ! (length (timelines example_state) + i)) =
                delay example_config + real i + stagger example_config"
    by blast
  have n: "length (lines s') = 3" using s' by (rule example_lines)
  from d n have "tl_delay (timelines s' ! 0) = 0.15" "tl_delay (timelines s' ! 1) = 1.15"
    "tl_delay (timelines s' ! 2) = 2.15"
    by (simp_all add: example_state_def example_config_def)
  with s' n show ?thesis by blast
qed

text \<open>
  C3. The scheduling mode follows \<open>animateOnScroll\<close>. When it is off, no trigger is
  created and every timeline of the activation runs from its construction (nothing pauses
  it). When it is on, every timeline is constructed and paused at once, and one trigger
  per line is created that watches the root from \<^verbatim>\<open>top 90%\<close>, fires once, and plays that
  line's timeline: whatever enter events the engine sees afterwards, the trigger has fired
  at most once, and once it has seen one its timeline plays.
\<close>

theorem scheduling_modes:
  assumes "containerRef s = Some c"
  shows "\<exists>s'. activate cfg seg s = Inr s' \<and>
     (\<not> animateOnScroll cfg \<longrightarrow>
        triggers s' = triggers s \<and>
        drop (length (trace s) + 2) (trace s') =
          map (\<lambda>i. EvTimeline (length (timelines s) + i)) [0..<length (lines s')] \<and>
        (\<forall>i<length (lines s'). \<not> tl_paused (timelines s' ! (length (timelines s) + i)))) \<and>
     (animateOnScroll cfg \<longrightarrow>
        length (triggers s') = length (triggers s) + length (lines s') \<and>
        drop (length (trace s) + 2) (trace s') =
          concat (map (\<lambda>i. [EvTimeline (length (timelines s) + i),
                             EvPause (length (timelines s) + i),
                             EvTrigger (length (timelines s) + i)]) [0..<length (lines s')]) \<and>
        (\<forall>i<length (lines s').
           tl_paused (timelines s' ! (length (timelines s) + i)) \<and>
           triggers s' ! (length (triggers s) + i) =
             \<lparr>st_trigger = Some c, st_start = ''top 90%'', st_once = True,
               st_onEnter = length (timelines s) + i, st_alive = True, st_fired = 0\<rparr> \<and>
           (\<forall>evs.
              st_fired (triggers (foldl st_enter s' evs) ! (length (triggers s) + i)) \<le> 1 \<and>
              (length (triggers s) + i \<in> set evs \<longrightarrow>
                 st_fired (triggers (foldl st_enter s' evs) ! (length (triggers s) + i)) = 1 \<and>
                 \<not> tl_paused (timelines (foldl st_enter s' evs) ! (length (timelines s) + i))))))"
proof -
  obtain s2 where s2: "length (blocks s2) = length (lines s2)" "same_engine s s2"
    "activate cfg seg s = Inr (schedule cfg (set_initial_state s2))"
    using activate_Some [OF assms] by blast
  let ?s' = "schedule cfg (set_initial_state s2)"
  let ?k = "length (timelines s)" and ?t = "length (triggers s)"
  have eng: "containerRef s2 = Some c" "timelines s2 = timelines s" "triggers s2 = triggers s"
    "trace s2 = trace s"
    using s2(2) assms by (simp_all add: same_engine_def)
  have imm: "triggers ?s' = triggers s \<and>
        drop (length (trace s) + 2) (trace ?s') =
          map (\<lambda>i. EvTimeline (?k + i)) [0..<length (lines ?s')] \<and>
        (\<forall>i<length (lines ?s'). \<not> tl_paused (timelines ?s' ! (?k + i)))"
    if "\<not> animateOnScroll cfg"
    using that s2(1) eng
    by (simp add: schedule_triggers schedule_trace schedule_timelines length_with_index
        nth_append nth_with_index reveal_timeline_def concat_map_singleton)
  have scr1: "length (triggers ?s') = ?t + length (lines ?s') \<and>
        drop (length (trace s) + 2) (trace ?s') =
          concat (map (\<lambda>i. [EvTimeline (?k + i), EvPause (?k + i), EvTrigger (?k + i)])
                    [0..<length (lines ?s')])"
    if "animateOnScroll cfg"
    using that s2(1) eng by (simp add: schedule_triggers schedule_trace)
  have scr2: "tl_paused (timelines ?s' ! (?k + i)) \<and>
           triggers ?s' ! (?t + i) =
             \<lparr>st_trigger = Some c, st_start = ''top 90%'', st_once = True,
               st_onEnter = ?k + i, st_alive = True, st_fired = 0\<rparr>"
    if "animateOnScroll cfg" "i < length (lines ?s')" for i
    using that s2(1) eng
    by (simp add: schedule_triggers schedule_timelines length_with_index
        nth_append nth_with_index)
  have scr3: "st_fired (triggers (foldl st_enter ?s' evs) ! (?t + i)) \<le> 1 \<and>
              (?t + i \<in> set evs \<longrightarrow>
                 st_fired (triggers (foldl st_enter ?s' evs) ! (?t + i)) = 1 \<and>
                 \<not> tl_paused (timelines (foldl st_enter ?s' evs) ! (?k + i)))"
    if "animateOnScroll cfg" "i < length (lines ?s')" for i evs
  proof -
    have "trigger_ok (?t + i) (?k + i) ?s'"
      using scr2 [OF that] scr1 [OF that(1)] that(2) s2(1) eng
      by (simp add: trigger_ok_def schedule_timelines length_with_index)
    then show ?thesis
      using enters_ok [of "?t + i" "?k + i" ?s' evs] enters_fires [of "?t + i" "?k + i" ?s' evs]
      by (auto simp: trigger_done_def dest: trigger_ok_fired)
  qed
  show ?thesis
    using s2(3) imm scr1 scr2 scr3 by (intro exI [of _ ?s']) blast
qed

theorem scheduling_modes_witness:
  "(\<exists>s'. activate example_config example_seg example_state = Inr s' \<and>
         length (lines s') = 3 \<and> length (triggers s') = 3 \<and>
         tl_paused (timelines s' ! 1) \<and>
         triggers s' ! 1 =
           \<lparr>st_trigger = Some 0, st_start = ''top 90%'', st_once = True, st_onEnter = 1,
             st_alive = True, st_fired = 0\<rparr> \<and>
         st_fired (triggers (foldl st_enter s' [1, 0, 1]) ! 1) = 1 \<and>
         \<not> tl_paused (timelines (foldl st_enter s' [1, 0, 1]) ! 1)) \<and>
   (\<exists>s'. activate example_config_immediate example_seg example_state = Inr s' \<and>
         length (lines s') = 3 \<and> triggers s' = [] \<and>
         \<not> tl_paused (timelines s' ! 1))"
proof -
  obtain s' where s': "activate example_config example_seg example_state = Inr s'"
    and a: "animateOnScroll example_config \<longrightarrow>
        length (triggers s') = length (triggers example_state) + length (lines s') \<and>
        drop (length (trace example_state) + 2) (trace s') =
          concat (map (\<lambda>i. [EvTimeline (length (timelines example_state) + i),
                             EvPause (length (timelines example_state) + i),
                             EvTrigger (length (timelines example_state) + i)])
                    [0..<length (lines s')]) \<and>
        (\<forall>i<length (lines s').
           tl_paused (timelines s' ! (length (timelines example_state) + i)) \<and>
           triggers s' ! (length (triggers example_state) + i) =
             \<lparr>st_trigger = Some 0, st_start = ''top 90%'', st_once = True,
               st_onEnter = length (timelines example_state) + i, st_alive = True,
               st_fired = 0\<rparr> \<and>
           (\<forall>evs.
              st_fired (triggers (foldl st_enter s' evs) !
                          (length (triggers example_state) + i)) \<le> 1 \<and>
              (length (triggers example_state) + i \<in> set evs \<longrightarrow>
                 st_fired (triggers (foldl st_enter s' evs) !
                             (length (triggers example_state) + i)) = 1 \<and>
                 \<not> tl_paused (timelines (foldl st_enter s' evs) !
                                 (length (timelines example_state) + i)))))"
    using scheduling_modes [OF example_ref, of example_config example_seg] by blast
  have n: "length (lines s') = 3" using s' by (rule example_lines)
  have on: "animateOnScroll example_config" by (simp add: example_config_def)
  have e: "length (triggers example_state) = 0" "length (timelines example_state) = 0"
    by (simp_all add: example_state_def)
  from a on n e have t: "length (triggers s') = 3" by simp
  from a on n e have i1: "tl_paused (timelines s' ! 1) \<and>
           triggers s' ! 1 =
             \<lparr>st_trigger = Some 0, st_start = ''top 90%'', st_once = True,
               st_onEnter = 1, st_alive = True, st_fired = 0\<rparr> \<and>
           (\<forall>evs.
              st_fired (triggers (foldl st_enter s' evs) ! 1) \<le> 1 \<and>
              (1 \<in> set evs \<longrightarrow>
                 st_fired (triggers (foldl st_enter s' evs) ! 1) = 1 \<and>
                 \<not> tl_paused (timelines (foldl st_enter s' evs) ! 1)))"
    by (metis (no_types, lifting) add_0 one_less_numeral_iff semiring_norm(77))
  then have "st_fired (triggers (foldl st_enter s' [1, 0, 1]) ! 1) = 1 \<and>
         \<not> tl_paused (timelines (foldl st_enter s' [1, 0, 1]) ! 1)"
    by (metis list.set_intros(1))
  with s' n t i1 have first: "\<exists>s'. activate example_config example_seg example_state = Inr s' \<and>
         length (lines s') = 3 \<and> length (triggers s') = 3 \<and>
         tl_paused (timelines s' ! 1) \<and>
         triggers s' ! 1 =
           \<lparr>st_trigger = Some 0, st_start = ''top 90%'', st_once = True, st_onEnter = 1,
             st_alive = True, st_fired = 0\<rparr> \<and>
         st_fired (triggers (foldl st_enter s' [1, 0, 1]) ! 1) = 1 \<and>
         \<not> tl_paused (timelines (foldl st_enter s' [1, 0, 1]) ! 1)"
    by blast
  obtain s'' where s'': "activate example_config_immediate example_seg example_state = Inr s''"
    and b: "\<not> animateOnScroll example_config_immediate \<longrightarrow>
        triggers s'' = triggers example_state \<and>
        drop (length (trace example_state) + 2) (trace s'') =
          map (\<lambda>i. EvTimeline (length (timelines example_state) + i)) [0..<length (lines s'')] \<and>
        (\<forall>i<length (lines s'').
           \<not> tl_paused (timelines s'' ! (length (timelines example_state) + i)))"
    using scheduling_modes [OF example_ref, of example_config_immediate example_seg] by blast
  have n': "length (lines s'') = 3" using s'' by (rule example_lines)
  have off: "\<not> animateOnScroll example_config_immediate"
    by (simp add: example_config_immediate_def)
  from b off n' have "triggers s'' = [] \<and> \<not> tl_paused (timelines s'' ! 1)"
    by (simp add: example_state_def)
  with s'' n' have second: "\<exists>s'. activate example_config_immediate example_seg example_state = Inr s' \<and>
         length (lines s') = 3 \<and> triggers s' = [] \<and> \<not> tl_paused (timelines s' ! 1)"
    by blast
  from first second show ?thesis by blast
qed

text \<open>
  C4. The timeline of a line performs, in this order: a tween of the block's \<open>scaleX\<close>
  from 0 to 1 over \<open>duration\<close> seconds with the ease \<^verbatim>\<open>power4.inOut\<close>, an instant set of
  the line's opacity to 1, an instant set of the block's transform origin to
  \<^verbatim>\<open>right center\<close>, and a tween of the block's \<open>scaleX\<close> from 1 to 0 over \<open>duration\<close>
  seconds with the same ease.
\<close>

theorem reveal_sequence:
  assumes "containerRef s = Some c"
  shows "\<exists>s'. activate cfg seg s = Inr s' \<and> length (blocks s') = length (lines s') \<and>
     (\<forall>i<length (lines s').
        tl_steps (timelines s' ! (length (timelines s) + i)) =
          [TlTo (blocks s' ! i) [(''scaleX'', Num 1)] (duration cfg) ''power4.inOut'',
           TlSet (Some (lines s' ! i)) [(''opacity'', Num 1)],
           TlSet (Some (blocks s' ! i)) [(''transformOrigin'', Str ''right center'')],
           TlTo (blocks s' ! i) [(''scaleX'', Num 0)] (duration cfg) ''power4.inOut''] \<and>
        run_steps (style (doc s')) (tl_steps (timelines s' ! (length (timelines s) + i))) =
          [PTween (blocks s' ! i) ''scaleX'' (Some (Num 0)) (Num 1) (duration cfg)
             ''power4.inOut'',
           PSet (lines s' ! i) ''opacity'' (Num 1),
           PSet (blocks s' ! i) ''transformOrigin'' (Str ''right center''),
           PTween (blocks s' ! i) ''scaleX'' (Some (Num 1)) (Num 0) (duration cfg)
             ''power4.inOut''])"
proof -
  obtain s2 where s2: "length (blocks s2) = length (lines s2)" "same_engine s s2"
    "activate cfg seg s = Inr (schedule cfg (set_initial_state s2))"
    using activate_Some [OF assms] by blast
  let ?s' = "schedule cfg (set_initial_state s2)"
  let ?k = "length (timelines s)"
  have eng: "timelines s2 = timelines s" using s2(2) by (simp add: same_engine_def)
  have steps: "tl_steps (timelines ?s' ! (?k + i)) =
          [TlTo (blocks ?s' ! i) [(''scaleX'', Num 1)] (duration cfg) ''power4.inOut'',
           TlSet (Some (lines ?s' ! i)) [(''opacity'', Num 1)],
           TlSet (Some (blocks ?s' ! i)) [(''transformOrigin'', Str ''right center'')],
           TlTo (blocks ?s' ! i) [(''scaleX'', Num 0)] (duration cfg) ''power4.inOut'']"
    if "i < length (lines ?s')" for i
    using that s2(1) eng
    by (simp add: schedule_timelines length_with_index nth_append nth_with_index
        reveal_timeline_def js_nth_def)
  have run: "run_steps (style (doc ?s')) (tl_steps (timelines ?s' ! (?k + i))) =
          [PTween (blocks ?s' ! i) ''scaleX'' (Some (Num 0)) (Num 1) (duration cfg)
             ''power4.inOut'',
           PSet (lines ?s' ! i) ''opacity'' (Num 1),
           PSet (blocks ?s' ! i) ''transformOrigin'' (Str ''right center''),
           PTween (blocks ?s' ! i) ''scaleX'' (Some (Num 1)) (Num 0) (duration cfg)
             ''power4.inOut'']"
    if "i < length (lines ?s')" for i
  proof -
    have "blocks s2 ! i \<in> set (blocks s2)" using that s2(1) by simp
    then have "style (doc (set_initial_state s2)) (blocks s2 ! i) ''scaleX'' = Some (Num 0)"
      by (simp add: style_initial_block)
    then show ?thesis
      by (simp add: steps [OF that] apply_vars_def)
  qed
  show ?thesis
    using s2(1,3) steps run by (intro exI [of _ ?s']) simp
qed

theorem reveal_sequence_witness:
  "\<exists>s'. activate example_config example_seg example_state = Inr s' \<and>
        length (lines s') = 3 \<and> length (blocks s') = 3 \<and>
        tl_steps (timelines s' ! 2) =
          [TlTo (blocks s' ! 2) [(''scaleX'', Num 1)] 0.75 ''power4.inOut'',
           TlSet (Some (lines s' ! 2)) [(''opacity'', Num 1)],
           TlSet (Some (blocks s' ! 2)) [(''transformOrigin'', Str ''right center'')],
           TlTo (blocks s' ! 2) [(''scaleX'', Num 0)] 0.75 ''power4.inOut''] \<and>
        run_steps (style (doc s')) (tl_steps (timelines s' ! 2)) =
          [PTween (blocks s' ! 2) ''scaleX'' (Some (Num 0)) (Num 1) 0.75 ''power4.inOut'',
           PSet (lines s' ! 2) ''opacity'' (Num 1),
           PSet (blocks s' ! 2) ''transformOrigin'' (Str ''right center''),
           PTween (blocks s' ! 2) ''scaleX'' (Some (Num 1)) (Num 0) 0.75 ''power4.inOut'']"
proof -
  obtain s' where s': "activate example_config example_seg example_state = Inr s'"
    and l: "length (blocks s') = length (lines s')"
    and a: "\<forall>i<length (lines s').
        tl_steps (timelines s' ! (length (timelines example_state) + i)) =
          [TlTo (blocks s' ! i) [(''scaleX'', Num 1)] (duration example_config) ''power4.inOut'',
           TlSet (Some (lines s' ! i)) [(''opacity'', Num 1)],
           TlSet (Some (blocks s' ! i)) [(''transformOrigin'', Str ''right center'')],
           TlTo (blocks s' ! i) [(''scaleX'', Num 0)] (duration example_config) ''power4.inOut''] \<and>
        run_steps (style (doc s')) (tl_steps (timelines s' ! (length (timelines example_state) + i))) =
          [PTween (blocks s' ! i) ''scaleX'' (Some (Num 0)) (Num 1) (duration example_config)
             ''power4.inOut'',
           PSet (lines s' ! i) ''opacity'' (Num 1),
           PSet (blocks s' ! i) ''transformOrigin'' (Str ''right center''),
           PTween (blocks s' ! i) ''scaleX'' (Some (Num 1)) (Num 0) (duration example_config)
             ''power4.inOut'']"
    using reveal_sequence [OF example_ref, of example_config example_seg] by blast
  have n: "length (lines s') = 3" using s' by (rule example_lines)
  have k: "length (timelines example_state) = 0" by (simp add: example_state_def)
  have dur: "duration example_config = 0.75" by (simp add: example_config_def)
  from a have a': "\<forall>i<length (lines s').
        tl_steps (timelines s' ! i) =
          [TlTo (blocks s' ! i) [(''scaleX'', Num 1)] 0.75 ''power4.inOut'',
           TlSet (Some (lines s' ! i)) [(''opacity'', Num 1)],
           TlSet (Some (blocks s' ! i)) [(''transformOrigin'', Str ''right center'')],
           TlTo (blocks s' ! i) [(''scaleX'', Num 0)] 0.75 ''power4.inOut''] \<and>
        run_steps (style (doc s')) (tl_steps (timelines s' ! i)) =
          [PTween (blocks s' ! i) ''scaleX'' (Some (Num 0)) (Num 1) 0.75 ''power4.inOut'',
           PSet (lines s' ! i) ''opacity'' (Num 1),
           PSet (blocks s' ! i) ''transformOrigin'' (Str ''right center''),
           PTween (blocks s' ! i) ''scaleX'' (Some (Num 1)) (Num 0) 0.75 ''power4.inOut'']"
    by (simp only: k dur add_0)
  have "(2::nat) < length (lines s')" using n by simp
  with a' have "tl_steps (timelines s' ! 2) =
          [TlTo (blocks s' ! 2) [(''scaleX'', Num 1)] 0.75 ''power4.inOut'',
           TlSet (Some (lines s' ! 2)) [(''opacity'', Num 1)],
           TlSet (Some (blocks s' ! 2)) [(''transformOrigin'', Str ''right center'')],
           TlTo (blocks s' ! 2) [(''scaleX'', Num 0)] 0.75 ''power4.inOut''] \<and>
        run_steps (style (doc s')) (tl_steps (timelines s' ! 2)) =
          [PTween (blocks s' ! 2) ''scaleX'' (Some (Num 0)) (Num 1) 0.75 ''power4.inOut'',
           PSet (lines s' ! 2) ''opacity'' (Num 1),
           PSet (blocks s' ! 2) ''transformOrigin'' (Str ''right center''),
           PTween (blocks s' ! 2) ''scaleX'' (Some (Num 1)) (Num 0) 0.75 ''power4.inOut'']"
    by blast
  moreover have "length (blocks s') = 3" using l n by simp
  ultimately show ?thesis using s' n by blast
qed

text \<open>
  C5. The initial visual state is applied to all lines in one call and to all blocks in
  one call, and both calls come before any timeline of the activation is constructed,
  paused or given a trigger; at the end of the activation every line has opacity 0 and
  every block has \<open>scaleX\<close> 0 with the transform origin \<^verbatim>\<open>left center\<close>.
\<close>

theorem initial_state_first:
  assumes "containerRef s = Some c"
  shows "\<exists>s'. activate cfg seg s = Inr s' \<and> length (blocks s') = length (lines s') \<and>
     trace s' =
       trace s @
       [EvSet (lines s') [(''opacity'', Num 0)],
        EvSet (blocks s') [(''scaleX'', Num 0), (''transformOrigin'', Str ''left center'')]] @
       concat (map (\<lambda>i. if animateOnScroll cfg
                         then [EvTimeline (length (timelines s) + i),
                               EvPause (length (timelines s) + i),
                               EvTrigger (length (timelines s) + i)]
                         else [EvTimeline (length (timelines s) + i)])
                 [0..<length (lines s')]) \<and>
     (\<forall>l\<in>set (lines s'). style (doc s') l ''opacity'' = Some (Num 0)) \<and>
     (\<forall>b\<in>set (blocks s').
        style (doc s') b ''scaleX'' = Some (Num 0) \<and>
        style (doc s') b ''transformOrigin'' = Some (Str ''left center''))"
proof -
  obtain s2 where s2: "length (blocks s2) = length (lines s2)" "same_engine s s2"
    "activate cfg seg s = Inr (schedule cfg (set_initial_state s2))"
    using activate_Some [OF assms] by blast
  let ?s' = "schedule cfg (set_initial_state s2)"
  have eng: "timelines s2 = timelines s" "trace s2 = trace s"
    using s2(2) by (simp_all add: same_engine_def)
  have "trace ?s' =
       trace s @
       [EvSet (lines ?s') [(''opacity'', Num 0)],
        EvSet (blocks ?s') [(''scaleX'', Num 0), (''transformOrigin'', Str ''left center'')]] @
       concat (map (\<lambda>i. if animateOnScroll cfg
                         then [EvTimeline (length (timelines s) + i),
                               EvPause (length (timelines s) + i),
                               EvTrigger (length (timelines s) + i)]
                         else [EvTimeline (length (timelines s) + i)])
                 [0..<length (lines ?s')])"
    using s2(1) eng by (simp add: schedule_trace cong: if_cong)
  moreover have "\<forall>l\<in>set (lines ?s'). style (doc ?s') l ''opacity'' = Some (Num 0)"
    by (simp add: style_initial_line)
  moreover have "\<forall>b\<in>set (blocks ?s').
        style (doc ?s') b ''scaleX'' = Some (Num 0) \<and>
        style (doc ?s') b ''transformOrigin'' = Some (Str ''left center'')"
    by (simp add: style_initial_block)
  ultimately show ?thesis using s2(1,3) by (intro exI [of _ ?s']) simp
qed

theorem initial_state_first_witness:
  "\<exists>s'. activate example_config example_seg example_state = Inr s' \<and>
        length (lines s') = 3 \<and> length (blocks s') = 3 \<and>
        take 3 (trace s') =
          [EvSet (lines s') [(''opacity'', Num 0)],
           EvSet (blocks s') [(''scaleX'', Num 0), (''transformOrigin'', Str ''left center'')],
           EvTimeline 0] \<and>
        style (doc s') (lines s' ! 0) ''opacity'' = Some (Num 0) \<and>
        style (doc s') (blocks s' ! 0) ''scaleX'' = Some (Num 0) \<and>
        style (doc s') (blocks s' ! 0) ''transformOrigin'' = Some (Str ''left center'')"
proof -
  obtain s' where s': "activate example_config example_seg example_state = Inr s'"
    and l: "length (blocks s') = length (lines s')"
    and tr: "trace s' =
       trace example_state @
       [EvSet (lines s') [(''opacity'', Num 0)],
        EvSet (blocks s') [(''scaleX'', Num 0), (''transformOrigin'', Str ''left center'')]] @
       concat (map (\<lambda>i. if animateOnScroll example_config
                         then [EvTimeline (length (timelines example_state) + i),
                               EvPause (length (timelines example_state) + i),
                               EvTrigger (length (timelines example_state) + i)]
                         else [EvTimeline (length (timelines example_state) + i)])
                 [0..<length (lines s')])"
    and ls: "\<forall>l\<in>set (lines s'). style (doc s') l ''opacity'' = Some (Num 0)"
    and bs: "\<forall>b\<in>set (blocks s').
        style (doc s') b ''scaleX'' = Some (Num 0) \<and>
        style (doc s') b ''transformOrigin'' = Some (Str ''left center'')"
    using initial_state_first [OF example_ref, of example_config example_seg] by blast
  have n: "length (lines s') = 3" using s' by (rule example_lines)
  have "[0..<length (lines s')] = [0, 1, 2]" using n by (simp add: upt_rec)
  with tr have "take 3 (trace s') =
          [EvSet (lines s') [(''opacity'', Num 0)],
           EvSet (blocks s') [(''scaleX'', Num 0), (''transformOrigin'', Str ''left center'')],
           EvTimeline 0]"
    by (simp add: example_state_def example_config_def)
  moreover have "lines s' ! 0 \<in> set (lines s')" "blocks s' ! 0 \<in> set (blocks s')"
    using n l by simp_all
  ultimately show ?thesis using s' n l ls bs by (intro exI [of _ s']) simp
qed

text \<open>
  C9. The teardown pass over the wrappers never fails, whatever the document and the
  list. A wrapper without a parent or without a first child is skipped: the unguarded
  statement would raise a \<^verbatim>\<open>TypeError\<close> there, the guarded one leaves the document as it
  is and the pass goes on with the remaining wrappers. A wrapper that has both (in a
  well-formed document, its first child not being its own parent) has its first child
  put at its position in the parent and is removed, and the pass goes on.
\<close>

theorem teardown_skips_incomplete_wrappers:
  "(\<exists>d'. forEach cleanup_wrapper d ws = Inr d') \<and>
   (parentNode d w = None \<or> firstChild d w = None \<longrightarrow>
      unwrap d w = Inl TypeError \<and> cleanup_wrapper d w = Inr d \<and>
      forEach cleanup_wrapper d (w # ws) = forEach cleanup_wrapper d ws) \<and>
   (wf_store d \<and> parentNode d w = Some p \<and> firstChild d w = Some c \<and> c \<noteq> p \<longrightarrow>
      (\<exists>d'. cleanup_wrapper d w = Inr d' \<and>
            forEach cleanup_wrapper d (w # ws) = forEach cleanup_wrapper d' ws \<and>
            kids d' p = map (\<lambda>x. if x = w then c else x) (kids d p) \<and>
            kids d' w = tl (kids d w) \<and>
            (\<forall>q. q \<noteq> p \<and> q \<noteq> w \<longrightarrow> kids d' q = kids d q) \<and>
            parentNode d' w = None \<and> parentNode d' c = Some p \<and>
            info d' = info d \<and> wf_store d'))"
proof -
  have A: "\<exists>d'. forEach cleanup_wrapper d ws = Inr d'" by (rule cleanup_wrappers_total)
  have B: "unwrap d w = Inl TypeError \<and> cleanup_wrapper d w = Inr d \<and>
      forEach cleanup_wrapper d (w # ws) = forEach cleanup_wrapper d ws"
    if "parentNode d w = None \<or> firstChild d w = None"
    using that by (auto simp: unwrap_def cleanup_wrapper_def split: option.splits)
  have C: "\<exists>d'. cleanup_wrapper d w = Inr d' \<and>
            forEach cleanup_wrapper d (w # ws) = forEach cleanup_wrapper d' ws \<and>
            kids d' p = map (\<lambda>x. if x = w then c else x) (kids d p) \<and>
            kids d' w = tl (kids d w) \<and>
            (\<forall>q. q \<noteq> p \<and> q \<noteq> w \<longrightarrow> kids d' q = kids d q) \<and>
            parentNode d' w = None \<and> parentNode d' c = Some p \<and>
            info d' = info d \<and> wf_store d'"
    if a: "wf_store d \<and> parentNode d w = Some p \<and> firstChild d w = Some c \<and> c \<noteq> p"
  proof -
    from a obtain d' where d': "unwrap d w = Inr d'"
      "kids d' p = map (\<lambda>x. if x = w then c else x) (kids d p)"
      "kids d' w = tl (kids d w)"
      "\<forall>q. q \<noteq> p \<and> q \<noteq> w \<longrightarrow> kids d' q = kids d q"
      "parentNode d' w = None" "parentNode d' c = Some p" "info d' = info d" "wf_store d'"
      using unwrap_wf [of d w p c] by blast
    have "cleanup_wrapper d w = Inr d'" using a d'(1) by (simp add: cleanup_wrapper_def)
    moreover from this have "forEach cleanup_wrapper d (w # ws) = forEach cleanup_wrapper d' ws"
      by simp
    ultimately show ?thesis using d' by blast
  qed
  from A B C show ?thesis by blast
qed

theorem teardown_skips_incomplete_wrappers_witness:
  "unwrap wrapped_doc 4 = Inl TypeError \<and> cleanup_wrapper wrapped_doc 4 = Inr wrapped_doc \<and>
   (\<exists>d'. forEach cleanup_wrapper wrapped_doc [4, 1] = Inr d' \<and>
         kids d' 0 = [2] \<and> kids d' 1 = [3] \<and> parentNode d' 1 = None \<and>
         parentNode d' 2 = Some 0)"
proof -
  have p4: "parentNode wrapped_doc 4 = None"
    using wf_wrapped_doc by (simp add: wf_parentNode_None) (simp add: wrapped_doc_def)
  have p1: "parentNode wrapped_doc 1 = Some 0"
    using wf_wrapped_doc by (simp add: wf_parentNode) (simp add: wrapped_doc_def)
  have f1: "firstChild wrapped_doc 1 = Some 2"
    by (simp add: firstChild_def wrapped_doc_def)
  from teardown_skips_incomplete_wrappers [of wrapped_doc "[1]" 4] p4
  have skip: "unwrap wrapped_doc 4 = Inl TypeError" "cleanup_wrapper wrapped_doc 4 = Inr wrapped_doc"
    "forEach cleanup_wrapper wrapped_doc [4, 1] = forEach cleanup_wrapper wrapped_doc [1]"
    by simp_all
  from teardown_skips_incomplete_wrappers [of wrapped_doc "[]" 1 0 2] wf_wrapped_doc p1 f1
  obtain d' where d': "forEach cleanup_wrapper wrapped_doc [1] = forEach cleanup_wrapper d' []"
    "kids d' 0 = map (\<lambda>x. if x = 1 then 2 else x) (kids wrapped_doc 0)"
    "kids d' 1 = tl (kids wrapped_doc 1)"
    "parentNode d' 1 = None" "parentNode d' 2 = Some 0"
    by auto
  then have "forEach cleanup_wrapper wrapped_doc [4, 1] = Inr d'" "kids d' 0 = [2]"
    "kids d' 1 = [3]"
    using skip(3) by (simp_all add: wrapped_doc_def)
  with skip(1,2) d'(4,5) show ?thesis by blast
qed

text \<open>
  C7. When the ref to the root is not attached, the activation returns without an error
  and leaves the whole state as it is. When the segmentation yields no line for any
  target, nothing follows the segmentation itself: no node is created, no style is set
  (the two \<^verbatim>\<open>gsap.set\<close> calls get empty arrays), and no timeline or trigger is made.
\<close>

theorem unattached_or_no_lines:
  "(containerRef s = None \<longrightarrow> activate cfg seg s = Inr s) \<and>
   (containerRef s = Some c \<and> (\<forall>d e. seg d e = []) \<longrightarrow>
      (\<exists>s'. activate cfg seg s = Inr s' \<and>
            lines s' = [] \<and> blocks s' = [] \<and>
            timelines s' = timelines s \<and> triggers s' = triggers s \<and>
            trace s' = trace s @
              [EvSet [] [(''opacity'', Num 0)],
               EvSet [] [(''scaleX'', Num 0), (''transformOrigin'', Str ''left center'')]] \<and>
            doc s' = foldl (\<lambda>d e. snd (SplitText_create seg d e)) (doc s)
                       (target_elements (doc s) c) \<and>
            style (doc s') = style (doc s) \<and> info (doc s') = info (doc s) \<and>
            next_id (doc s') = next_id (doc s)))"
proof -
  have A: "activate cfg seg s = Inr s" if "containerRef s = None"
    using that by (simp add: activate_def)
  have B: "\<exists>s'. activate cfg seg s = Inr s' \<and>
            lines s' = [] \<and> blocks s' = [] \<and>
            timelines s' = timelines s \<and> triggers s' = triggers s \<and>
            trace s' = trace s @
              [EvSet [] [(''opacity'', Num 0)],
               EvSet [] [(''scaleX'', Num 0), (''transformOrigin'', Str ''left center'')]] \<and>
            doc s' = foldl (\<lambda>d e. snd (SplitText_create seg d e)) (doc s)
                       (target_elements (doc s) c) \<and>
            style (doc s') = style (doc s) \<and> info (doc s') = info (doc s) \<and>
            next_id (doc s') = next_id (doc s)"
    if a: "containerRef s = Some c \<and> (\<forall>d e. seg d e = [])"
  proof -
    let ?s1 = "s\<lparr>splitRef := [], lines := [], blocks := []\<rparr>"
    from a have z: "\<forall>d e. seg d e = []" by simp
    obtain s2 where s2: "forEach (process_element cfg seg) ?s1 (target_elements (doc s) c) = Inr s2"
      "lines s2 = []" "blocks s2 = []" "same_engine ?s1 s2"
      "doc s2 = foldl (\<lambda>d e. snd (SplitText_create seg d e)) (doc s) (target_elements (doc s) c)"
      using process_elements_no_lines [OF z, of cfg ?s1 "target_elements (doc s) c"] by auto
    let ?s' = "schedule cfg (set_initial_state s2)"
    have act: "activate cfg seg s = Inr ?s'" using a s2(1) by (simp add: activate_def Let_def)
    have d: "doc ?s' = doc s2"
      using s2(2,3) by (simp add: set_initial_state_def gsap_set_def Let_def)
    have "lines ?s' = []" "blocks ?s' = []" using s2(2,3) by simp_all
    moreover have "timelines ?s' = timelines s" "triggers ?s' = triggers s"
      using s2(3,4)
      by (simp_all add: schedule_timelines schedule_triggers with_index_Nil same_engine_def)
    moreover have "trace ?s' = trace s @
              [EvSet [] [(''opacity'', Num 0)],
               EvSet [] [(''scaleX'', Num 0), (''transformOrigin'', Str ''left center'')]]"
      using s2(2,3,4) by (simp add: schedule_trace same_engine_def)
    moreover have "style (doc ?s') = style (doc s) \<and> info (doc ?s') = info (doc s) \<and>
            next_id (doc ?s') = next_id (doc s)"
      using splits_no_lines_keep [OF z, of "doc s" "target_elements (doc s) c"]
      by (simp only: d s2(5))
    ultimately show ?thesis using act d s2(5) by (intro exI [of _ ?s']) simp
  qed
  from A B show ?thesis by blast
qed

theorem unattached_or_no_lines_witness:
  "activate example_config example_seg (example_state\<lparr>containerRef := None\<rparr>) =
     Inr (example_state\<lparr>containerRef := None\<rparr>) \<and>
   (\<exists>s'. activate example_config empty_seg example_state = Inr s' \<and>
         lines s' = [] \<and> blocks s' = [] \<and> timelines s' = [] \<and> triggers s' = [] \<and>
         trace s' =
           [EvSet [] [(''opacity'', Num 0)],
            EvSet [] [(''scaleX'', Num 0), (''transformOrigin'', Str ''left center'')]] \<and>
         next_id (doc s') = 3 \<and> kids (doc s') 1 = [] \<and> kids (doc s') 0 = [1])"
proof -
  have n: "containerRef (example_state\<lparr>containerRef := None\<rparr>) = None" by simp
  have first: "activate example_config example_seg (example_state\<lparr>containerRef := None\<rparr>) =
     Inr (example_state\<lparr>containerRef := None\<rparr>)"
    using unattached_or_no_lines
      [of "example_state\<lparr>containerRef := None\<rparr>" example_config example_seg] n
    by blast
  have z: "\<forall>d e. empty_seg d e = []" by (simp add: empty_seg_def)
  from unattached_or_no_lines [of example_state example_config empty_seg 0] example_ref z
  obtain s' where s': "activate example_config empty_seg example_state = Inr s'"
    "lines s' = []" "blocks s' = []" "timelines s' = timelines example_state"
    "triggers s' = triggers example_state"
    "trace s' = trace example_state @
              [EvSet [] [(''opacity'', Num 0)],
               EvSet [] [(''scaleX'', Num 0), (''transformOrigin'', Str ''left center'')]]"
    "doc s' = foldl (\<lambda>d e. snd (SplitText_create empty_seg d e)) (doc example_state)
                       (target_elements (doc example_state) 0)"
    "next_id (doc s') = next_id (doc example_state)"
    by blast
  have "kids (doc s') 1 = []" "kids (doc s') 0 = [1]"
    using s'(7) by (simp_all add: example_targets split_no_lines [OF z])
      (simp_all add: example_state_def example_doc_def)
  with s' have "\<exists>s'. activate example_config empty_seg example_state = Inr s' \<and>
         lines s' = [] \<and> blocks s' = [] \<and> timelines s' = [] \<and> triggers s' = [] \<and>
         trace s' =
           [EvSet [] [(''opacity'', Num 0)],
            EvSet [] [(''scaleX'', Num 0), (''transformOrigin'', Str ''left center'')]] \<and>
         next_id (doc s') = 3 \<and> kids (doc s') 1 = [] \<and> kids (doc s') 0 = [1]"
    by (intro exI [of _ s']) (simp add: example_state_def example_doc_def)
  with first show ?thesis by blast
qed

text \<open>
  C10. The root that the component renders carries the marker attribute
  \<^verbatim>\<open>data-block-reveal-text-wrapper\<close>, and the ref points to it. An activation on what was
  rendered therefore takes the multi-child branch: its targets are the root's child
  elements, never the root itself as the sole target. Neither the activation nor the
  cleanup touches the attribute, so the same holds for the activation that follows.
\<close>

theorem rendered_root_is_multi_child_host:
  "containerRef (render s cs) = Some (next_id (doc s)) \<and>
   hasAttribute (doc (render s cs)) (next_id (doc s)) ''data-block-reveal-text-wrapper'' \<and>
   target_elements (doc (render s cs)) (next_id (doc s)) =
     children (doc (render s cs)) (next_id (doc s)) \<and>
   activate cfg seg (render s cs) =
     (case forEach (process_element cfg seg)
             ((render s cs)\<lparr>splitRef := [], lines := [], blocks := []\<rparr>)
             (children (doc (render s cs)) (next_id (doc s))) of
        Inl e \<Rightarrow> Inl e
      | Inr s2 \<Rightarrow> Inr (schedule cfg (set_initial_state s2))) \<and>
   (\<exists>s1 s2. activate cfg seg (render s cs) = Inr s1 \<and> cleanup s1 = Inr s2 \<and>
      hasAttribute (doc s1) (next_id (doc s)) ''data-block-reveal-text-wrapper'' \<and>
      containerRef s2 = Some (next_id (doc s)) \<and>
      hasAttribute (doc s2) (next_id (doc s)) ''data-block-reveal-text-wrapper'' \<and>
      target_elements (doc s2) (next_id (doc s)) = children (doc s2) (next_id (doc s)))"
proof -
  let ?root = "next_id (doc s)" and ?a = "''data-block-reveal-text-wrapper''"
  let ?d2 = "setAttribute (snd (createElement (doc s) ''div'')) ?root ?a ''true''"
  have i: "info (foldl (\<lambda>d k. appendChild d ?root k) d cs) = info d \<and>
           next_id (foldl (\<lambda>d k. appendChild d ?root k) d cs) = next_id d" for d
    by (induction cs arbitrary: d) simp_all
  have r: "render s cs = s\<lparr>doc := foldl (\<lambda>d k. appendChild d ?root k) ?d2 cs,
                            containerRef := Some ?root\<rparr>"
    by (simp add: render_def Let_def split_beta)
  have h: "hasAttribute (doc (render s cs)) ?root ?a"
    by (simp add: r i hasAttribute_def setAttribute_def)
  then have t: "target_elements (doc (render s cs)) ?root = children (doc (render s cs)) ?root"
    by (simp add: target_elements_def)
  have c: "containerRef (render s cs) = Some ?root" by (simp add: r)
  have lt: "?root < next_id (doc (render s cs))" by (simp add: r i setAttribute_def)
  have e: "activate cfg seg (render s cs) =
     (case forEach (process_element cfg seg)
             ((render s cs)\<lparr>splitRef := [], lines := [], blocks := []\<rparr>)
             (children (doc (render s cs)) ?root) of
        Inl e \<Rightarrow> Inl e
      | Inr s2 \<Rightarrow> Inr (schedule cfg (set_initial_state s2)))"
    using c t by (simp add: activate_def Let_def)
  obtain s0 where "activate cfg seg (render s cs) = Inr (schedule cfg (set_initial_state s0))"
    using activate_Some [OF c] by blast
  then obtain s1 where s1: "activate cfg seg (render s cs) = Inr s1" by blast
  have c1: "containerRef s1 = Some ?root" using c s1 by (rule activate_containerRef)
  have i1: "info (doc s1) ?root = info (doc (render s cs)) ?root"
    using s1 lt by (rule activate_info)
  obtain s2 where s2: "cleanup s1 = Inr s2" "info (doc s2) = info (doc s1)"
    "containerRef s2 = containerRef s1"
    using cleanup_total by blast
  have h1: "hasAttribute (doc s1) ?root ?a" using h i1 by (simp add: hasAttribute_def)
  then have h2: "hasAttribute (doc s2) ?root ?a" using s2(2) by (simp add: hasAttribute_def)
  then have t2: "target_elements (doc s2) ?root = children (doc s2) ?root"
    by (simp add: target_elements_def)
  have ex: "\<exists>s1 s2. activate cfg seg (render s cs) = Inr s1 \<and> cleanup s1 = Inr s2 \<and>
      hasAttribute (doc s1) ?root ?a \<and>
      containerRef s2 = Some ?root \<and>
      hasAttribute (doc s2) ?root ?a \<and>
      target_elements (doc s2) ?root = children (doc s2) ?root"
    using s1 s2(1,3) c1 h1 h2 t2 by auto
  from c h t e ex show ?thesis by (intro conjI)
qed

text \<open>
  C6. After an activation on a well-formed document, in the multi-child mode as in the
  single-target mode: the lines are those the segmentation handles hold, there are as
  many blocks as lines and as many timelines were constructed as there are lines, lines
  and blocks are pairwise distinct, and every line sits together with its block, and
  nothing else, in a wrapper that is the only parent of both.
\<close>

theorem one_wrapper_and_block_per_line:
  assumes "containerRef s = Some c" "wf_store (doc s)" "c < next_id (doc s)"
  shows "\<exists>s'. activate cfg seg s = Inr s' \<and>
     lines s' = concat (map split_lines (splitRef s')) \<and>
     length (blocks s') = length (lines s') \<and>
     length (timelines s') = length (timelines s) + length (lines s') \<and>
     distinct (lines s') \<and> distinct (blocks s') \<and>
     (\<forall>i<length (lines s').
        \<exists>w. info (doc s') w = Element ''div'' [''block-line-wrapper''] [] \<and>
            kids (doc s') w = [lines s' ! i, blocks s' ! i] \<and>
            info (doc s') (blocks s' ! i) = Element ''div'' [''block-revealer''] [] \<and>
            parentNode (doc s') (lines s' ! i) = Some w \<and>
            parentNode (doc s') (blocks s' ! i) = Some w \<and>
            (\<forall>q. lines s' ! i \<in> set (kids (doc s') q) \<or>
                 blocks s' ! i \<in> set (kids (doc s') q) \<longrightarrow> q = w))"
proof -
  obtain s' where act: "activate cfg seg s = Inr s'"
    and inv: "act_inv s (set (target_elements (doc s) c)) [] s'"
    using activate_inv [OF assms] by blast
  from inv have wf: "wf_store (doc s')"
    and lin0: "lines s' @ [] = concat (map split_lines (splitRef s'))"
    and len: "length (blocks s') = length (lines s')"
    and dis0: "distinct (lines s' @ [])"
    and wr: "\<forall>i<length (lines s').
        \<exists>w\<ge>next_id (doc s).
          kids (doc s') w = [lines s' ! i, blocks s' ! i] \<and>
          info (doc s') w = Element ''div'' [''block-line-wrapper''] [] \<and>
          info (doc s') (blocks s' ! i) = Element ''div'' [''block-revealer''] []"
    unfolding act_inv_def by blast+
  from lin0 have lin: "lines s' = concat (map split_lines (splitRef s'))" by simp
  from dis0 have dis: "distinct (lines s')" by simp
  have tl: "length (timelines s') = length (timelines s) + length (lines s')"
    using assms(1) act by (rule activate_timelines_length)
  have one: "\<exists>w. info (doc s') w = Element ''div'' [''block-line-wrapper''] [] \<and>
            kids (doc s') w = [lines s' ! i, blocks s' ! i] \<and>
            info (doc s') (blocks s' ! i) = Element ''div'' [''block-revealer''] [] \<and>
            parentNode (doc s') (lines s' ! i) = Some w \<and>
            parentNode (doc s') (blocks s' ! i) = Some w \<and>
            (\<forall>q. lines s' ! i \<in> set (kids (doc s') q) \<or>
                 blocks s' ! i \<in> set (kids (doc s') q) \<longrightarrow> q = w)"
    if "i < length (lines s')" for i
  proof -
    from wr that obtain w where w: "kids (doc s') w = [lines s' ! i, blocks s' ! i]"
      "info (doc s') w = Element ''div'' [''block-line-wrapper''] []"
      "info (doc s') (blocks s' ! i) = Element ''div'' [''block-revealer''] []"
      by blast
    have m: "lines s' ! i \<in> set (kids (doc s') w)" "blocks s' ! i \<in> set (kids (doc s') w)"
      using w(1) by simp_all
    then have "parentNode (doc s') (lines s' ! i) = Some w"
      "parentNode (doc s') (blocks s' ! i) = Some w"
      using wf by (simp_all add: wf_parentNode)
    moreover have "\<forall>q. lines s' ! i \<in> set (kids (doc s') q) \<or>
                 blocks s' ! i \<in> set (kids (doc s') q) \<longrightarrow> q = w"
      using m wf wf_one_parent by blast
    ultimately show ?thesis using w by blast
  qed
  have disb: "distinct (blocks s')"
  proof (rule ccontr)
    assume "\<not> distinct (blocks s')"
    then obtain i j where ij: "i < length (blocks s')" "j < length (blocks s')" "i \<noteq> j"
      "blocks s' ! i = blocks s' ! j"
      by (auto simp: distinct_conv_nth)
    from one [of i] ij(1) len obtain w where w: "kids (doc s') w = [lines s' ! i, blocks s' ! i]"
      by auto
    from one [of j] ij(2) len obtain v where v: "kids (doc s') v = [lines s' ! j, blocks s' ! j]"
      by auto
    have "blocks s' ! i \<in> set (kids (doc s') w)" "blocks s' ! i \<in> set (kids (doc s') v)"
      using w v ij(4) by simp_all
    with wf have "w = v" by (rule wf_one_parent)
    with w v have "lines s' ! i = lines s' ! j" by simp
    with dis ij(1,2,3) len show False by (simp add: nth_eq_iff_index_eq)
  qed
  from act lin len tl dis disb one show ?thesis by blast
qed

theorem one_wrapper_and_block_per_line_witness:
  "(\<exists>s' w. activate example_config example_seg example_state = Inr s' \<and>
          length (lines s') = 3 \<and> length (blocks s') = 3 \<and> length (timelines s') = 3 \<and>
          info (doc s') w = Element ''div'' [''block-line-wrapper''] [] \<and>
          kids (doc s') w = [lines s' ! 0, blocks s' ! 0] \<and>
          parentNode (doc s') (lines s' ! 0) = Some w) \<and>
   (\<exists>s' w. activate example_config example_seg plain_state = Inr s' \<and>
          length (lines s') = 3 \<and> length (blocks s') = 3 \<and> length (timelines s') = 3 \<and>
          info (doc s') w = Element ''div'' [''block-line-wrapper''] [] \<and>
          kids (doc s') w = [lines s' ! 0, blocks s' ! 0] \<and>
          parentNode (doc s') (lines s' ! 0) = Some w)"
proof -
  have a: "wf_store (doc example_state)" "0 < next_id (doc example_state)"
    using wf_example_doc by (simp_all add: example_state_def) (simp add: example_doc_def)
  from one_wrapper_and_block_per_line [OF example_ref a, of example_config example_seg]
  obtain s' where s': "activate example_config example_seg example_state = Inr s'"
    "length (blocks s') = length (lines s')"
    "length (timelines s') = length (timelines example_state) + length (lines s')"
    and w: "\<forall>i<length (lines s').
        \<exists>w. info (doc s') w = Element ''div'' [''block-line-wrapper''] [] \<and>
            kids (doc s') w = [lines s' ! i, blocks s' ! i] \<and>
            info (doc s') (blocks s' ! i) = Element ''div'' [''block-revealer''] [] \<and>
            parentNode (doc s') (lines s' ! i) = Some w \<and>
            parentNode (doc s') (blocks s' ! i) = Some w \<and>
            (\<forall>q. lines s' ! i \<in> set (kids (doc s') q) \<or>
                 blocks s' ! i \<in> set (kids (doc s') q) \<longrightarrow> q = w)"
    by blast
  have n: "length (lines s') = 3" using s'(1) by (rule example_lines)
  then have "0 < length (lines s')" by simp
  with w obtain w1 where "info (doc s') w1 = Element ''div'' [''block-line-wrapper''] []"
    "kids (doc s') w1 = [lines s' ! 0, blocks s' ! 0]"
    "parentNode (doc s') (lines s' ! 0) = Some w1"
    by blast
  moreover have "length (blocks s') = 3" "length (timelines s') = 3"
    using s'(2,3) n by (simp_all add: example_state_def)
  ultimately have first: "\<exists>s' w. activate example_config example_seg example_state = Inr s' \<and>
          length (lines s') = 3 \<and> length (blocks s') = 3 \<and> length (timelines s') = 3 \<and>
          info (doc s') w = Element ''div'' [''block-line-wrapper''] [] \<and>
          kids (doc s') w = [lines s' ! 0, blocks s' ! 0] \<and>
          parentNode (doc s') (lines s' ! 0) = Some w"
    using s'(1) n by blast
  have r: "containerRef plain_state = Some 0" by (simp add: plain_state_def)
  have b: "wf_store (doc plain_state)" "0 < next_id (doc plain_state)"
    using wf_plain_doc by (simp_all add: plain_state_def) (simp add: plain_doc_def)
  from one_wrapper_and_block_per_line [OF r b, of example_config example_seg]
  obtain t' where t': "activate example_config example_seg plain_state = Inr t'"
    "length (blocks t') = length (lines t')"
    "length (timelines t') = length (timelines plain_state) + length (lines t')"
    and v: "\<forall>i<length (lines t').
        \<exists>w. info (doc t') w = Element ''div'' [''block-line-wrapper''] [] \<and>
            kids (doc t') w = [lines t' ! i, blocks t' ! i] \<and>
            info (doc t') (blocks t' ! i) = Element ''div'' [''block-revealer''] [] \<and>
            parentNode (doc t') (lines t' ! i) = Some w \<and>
            parentNode (doc t') (blocks t' ! i) = Some w \<and>
            (\<forall>q. lines t' ! i \<in> set (kids (doc t') q) \<or>
                 blocks t' ! i \<in> set (kids (doc t') q) \<longrightarrow> q = w)"
    by blast
  have n': "length (lines t') = 3" using t'(1) by (rule plain_lines)
  then have "0 < length (lines t')" by simp
  with v obtain w2 where "info (doc t') w2 = Element ''div'' [''block-line-wrapper''] []"
    "kids (doc t') w2 = [lines t' ! 0, blocks t' ! 0]"
    "parentNode (doc t') (lines t' ! 0) = Some w2"
    by blast
  moreover have "length (blocks t') = 3" "length (timelines t') = 3"
    using t'(2,3) n' by (simp_all add: plain_state_def)
  ultimately have second: "\<exists>s' w. activate example_config example_seg plain_state = Inr s' \<and>
          length (lines s') = 3 \<and> length (blocks s') = 3 \<and> length (timelines s') = 3 \<and>
          info (doc s') w = Element ''div'' [''block-line-wrapper''] [] \<and>
          kids (doc s') w = [lines s' ! 0, blocks s' ! 0] \<and>
          parentNode (doc s') (lines s' ! 0) = Some w"
    using t'(1) n' by blast
  from first second show ?thesis by blast
qed

text \<open>
  C2. Activation followed at once by deactivation does not always restore the subtree of
  the root. Here the root holds one paragraph that carries the class
  \<^verbatim>\<open>block-line-wrapper\<close> and the text \<^verbatim>\<open>hi\<close>, laid out in one line. The round trip
  succeeds, and the segmentation is reverted, but the cleanup, which looks for the
  wrappers of the activation by their class name, finds the paragraph: it moves the
  paragraph's text up into the root and removes the paragraph, a node that was there
  before the activation. The subtree before is a root around a paragraph around the
  text; the subtree after is a root around the text.
\<close>

theorem round_trip_removes_marked_paragraph:
  "containerRef clash_state = Some 0 \<and>
   hasAttribute (doc clash_state) 0 ''data-block-reveal-text-wrapper'' \<and>
   shape_of 2 (doc clash_state) 0 =
     ShElem ''div'' [] [(''data-block-reveal-text-wrapper'', ''true'')]
       [ShElem ''p'' [''block-line-wrapper''] [] [ShText ''hi'']] \<and>
   (\<exists>s1 s2. activate example_config one_line_seg clash_state = Inr s1 \<and>
      cleanup s1 = Inr s2 \<and>
      round_trip example_config one_line_seg clash_state = Inr s2 \<and>
      kids (doc s2) 0 = [2] \<and>
      shape_of 2 (doc s2) 0 =
        ShElem ''div'' [] [(''data-block-reveal-text-wrapper'', ''true'')] [ShText ''hi''])"
proof -
  let ?cls = "''block-line-wrapper''"
  have r: "containerRef clash_state = Some 0" by (simp add: clash_state_def)
  have a: "wf_store (doc clash_state)" "0 < next_id (doc clash_state)"
    using wf_clash_doc by (simp_all add: clash_state_def) (simp add: clash_doc_def)
  obtain s1 where act: "activate example_config one_line_seg clash_state = Inr s1"
    and inv: "act_inv clash_state (set (target_elements (doc clash_state) 0)) [] s1"
    using activate_inv [OF r a] by blast
  have c1: "containerRef s1 = Some 0" using r act by (rule activate_containerRef)
  obtain D where D: "\<forall>m<next_id (doc clash_state).
        kids D m = kids (doc clash_state) m \<and> info D m = info (doc clash_state) m"
    "next_id D = next_id (doc s1)"
    "querySelectorAll D 0 ?cls =
       filter (\<lambda>k. has_class (doc clash_state) k ?cls)
         (descendants (next_id (doc s1)) (doc clash_state) 0)"
    "cleanup s1 =
       (case forEach cleanup_wrapper D (querySelectorAll D 0 ?cls) of
          Inl e \<Rightarrow> Inl e | Inr d2 \<Rightarrow> Inr (s1\<lparr>doc := d2\<rparr>))"
    using cleanup_after_activation [OF inv c1 a(2,1), of ?cls] by blast
  from inv have "next_id (doc clash_state) \<le> next_id (doc s1)"
    unfolding act_inv_def by blast
  then obtain n where n: "next_id (doc s1) = Suc (Suc (Suc n))"
    by (auto simp: clash_state_def clash_doc_def numeral_3_eq_3 dest: Suc_le_D)
       (metis Suc_le_D Suc_le_mono)
  have k: "kids D 0 = [1]" "kids D 1 = [2]" "kids D 2 = []"
    "info D 0 = Element ''div'' [] [(''data-block-reveal-text-wrapper'', ''true'')]"
    "info D 1 = Element ''p'' [?cls] []" "info D 2 = TextNode ''hi''"
    using D(1) by (simp_all add: clash_state_def clash_doc_def)
  from k have k': "kids D (Suc 0) = [2]" "info D (Suc 0) = Element ''p'' [?cls] []"
    by simp_all
  note k = k k'
  have q: "querySelectorAll D 0 ?cls = [1]"
    by (simp add: D(3) n) (simp add: clash_state_def clash_doc_def has_class_def)
  have p1: "parentNode D 1 = Some 0"
    unfolding parentNode_def D(2) n by (rule find_upt_first) (simp add: k)
  have f1: "firstChild D 1 = Some 2" by (simp add: firstChild_def k)
  have p2: "parentNode D 2 = Some 1"
    unfolding parentNode_def D(2) n by (rule find_upt_second) (simp_all add: k)
  let ?D1 = "D\<lparr>kids := (kids D)(1 := [])\<rparr>"
  let ?D2 = "?D1\<lparr>kids := (kids ?D1)(0 := [2, 1])\<rparr>"
  have i1: "insertBefore D 0 2 1 = Inr ?D2"
    using p2 by (simp add: insertBefore_def node_remove_def k Let_def)
  have n2: "next_id ?D2 = Suc (Suc (Suc n))" by (simp add: D(2) n)
  have p3: "parentNode ?D2 1 = Some 0"
    unfolding parentNode_def n2 by (rule find_upt_first) simp
  let ?D3 = "?D2\<lparr>kids := (kids ?D2)(0 := [2])\<rparr>"
  have nr: "node_remove ?D2 1 = ?D3" using p3 by (simp add: node_remove_def)
  have u: "unwrap D 1 = Inr ?D3"
    using p1 f1 i1 nr by (simp add: unwrap_def)
  have cw: "cleanup_wrapper D 1 = Inr ?D3"
    using p1 f1 u by (simp add: cleanup_wrapper_def)
  have cl: "cleanup s1 = Inr (s1\<lparr>doc := ?D3\<rparr>)" using q cw by (simp add: D(4))
  have rt: "round_trip example_config one_line_seg clash_state = Inr (s1\<lparr>doc := ?D3\<rparr>)"
    using act cl by (simp add: round_trip_def)
  have before: "shape_of 2 (doc clash_state) 0 =
     ShElem ''div'' [] [(''data-block-reveal-text-wrapper'', ''true'')]
       [ShElem ''p'' [''block-line-wrapper''] [] [ShText ''hi'']]"
    by (simp add: clash_state_def clash_doc_def numeral_2_eq_2)
  have after: "shape_of 2 ?D3 0 =
     ShElem ''div'' [] [(''data-block-reveal-text-wrapper'', ''true'')] [ShText ''hi'']"
    using k by (simp add: numeral_2_eq_2)
  have h: "hasAttribute (doc clash_state) 0 ''data-block-reveal-text-wrapper''"
    by (simp add: clash_state_def clash_doc_def hasAttribute_def)
  have k0: "kids (doc (s1\<lparr>doc := ?D3\<rparr>)) 0 = [2]" by simp
  have after': "shape_of 2 (doc (s1\<lparr>doc := ?D3\<rparr>)) 0 =
     ShElem ''div'' [] [(''data-block-reveal-text-wrapper'', ''true'')] [ShText ''hi'']"
    using after by simp
  have ex: "\<exists>s1 s2. activate example_config one_line_seg clash_state = Inr s1 \<and>
      cleanup s1 = Inr s2 \<and>
      round_trip example_config one_line_seg clash_state = Inr s2 \<and>
      kids (doc s2) 0 = [2] \<and>
      shape_of 2 (doc s2) 0 =
        ShElem ''div'' [] [(''data-block-reveal-text-wrapper'', ''true'')] [ShText ''hi'']"
    using act cl rt k0 after' by blast
  from r h before ex show ?thesis by (intro conjI)
qed

end
